theory Spec2Isabelle
  imports Main
begin

unbundle bit_operations_syntax

section \<open>The board and the game state (class GameState of gamestate.py)\<close>

text \<open>
  Python integers are unbounded, so coordinates, cell values, the player index and the
  search depth are \<open>int\<close>. A move is the tuple \<open>(column, row)\<close>.
\<close>

type_synonym move = "int \<times> int"

text \<open>The module constants \<^verbatim>\<open>xlim, ylim = 3, 2\<close>.\<close>

definition xlim :: int where
  "xlim = 3"

definition ylim :: int where
  "ylim = 2"

text \<open>
  The three attributes of the class: \<^verbatim>\<open>_board[x][y]\<close> (a list of columns, 0 open and
  1 closed), \<^verbatim>\<open>active_player\<close> and \<^verbatim>\<open>_player_locations\<close> (a two-element list whose
  entries are \<^verbatim>\<open>None\<close> or a tuple).
\<close>

record GameState =
  board :: "int list list"
  active_player :: int
  player_locations :: "move option list"

text \<open>
  \<^verbatim>\<open>__init__\<close>: the board comprehension, then \<^verbatim>\<open>self._board[-1][-1] = 1\<close>. A negative
  subscript counts from the end of the list, so \<^verbatim>\<open>-1\<close> is the index \<open>length - 1\<close>.
\<close>

definition GameState_init :: GameState where
  "GameState_init =
     (let b = map (\<lambda>_. replicate (nat ylim) (0::int)) [0..xlim - 1];
          i = length b - 1;
          j = length (b ! i) - 1
      in \<lparr>board = b[i := (b ! i)[j := 1]],
          active_player = 0,
          player_locations = [None, None]\<rparr>)"

text \<open>
  \<^verbatim>\<open>_get_blank_spaces\<close>: the comprehension
  \<^verbatim>\<open>[(x, y) for y in range(ylim) for x in range(xlim) if self._board[x][y] == 0]\<close>.
\<close>

definition get_blank_spaces :: "GameState \<Rightarrow> move list" where
  "get_blank_spaces s =
     [(x, y). y \<leftarrow> [0..ylim - 1], x \<leftarrow> [0..xlim - 1], board s ! nat x ! nat y = 0]"

text \<open>The literal \<^verbatim>\<open>rays\<close> of \<^verbatim>\<open>get_legal_moves\<close>.\<close>

definition rays :: "(int \<times> int) list" where
  "rays = [(1, 0), (1, -1), (0, -1), (-1, -1), (-1, 0), (-1, 1), (0, 1), (1, 1)]"

text \<open>
  The inner \<^verbatim>\<open>while\<close> loop of \<^verbatim>\<open>get_legal_moves\<close>, for one ray \<open>(dx, dy)\<close>, started at
  \<open>(x, y)\<close> with the list \<open>moves\<close> built so far. The loop is written as the source has
  it, for any \<open>dx\<close> and \<open>dy\<close>; for \<open>dx = dy = 0\<close> on an open cell it would never leave,
  so the result is an option and \<open>None\<close> stands for a loop that does not return.
  \<^verbatim>\<open>break\<close> and the failing loop test both leave the loop with \<open>moves\<close>.
\<close>

partial_function (option) ray_while ::
  "int list list \<Rightarrow> int \<Rightarrow> int \<Rightarrow> int \<Rightarrow> int \<Rightarrow> move list \<Rightarrow> move list option" where
  [code]: "ray_while b dx dy x y moves =
     (if 0 \<le> x + dx \<and> x + dx < xlim \<and> 0 \<le> y + dy \<and> y + dy < ylim then
        (if b ! nat (x + dx) ! nat (y + dy) \<noteq> 0 then Some moves
         else ray_while b dx dy (x + dx) (y + dy) (moves @ [(x + dx, y + dy)]))
      else Some moves)"

text \<open>
  The \<^verbatim>\<open>for dx, dy in rays\<close> loop: every ray starts again at \<^verbatim>\<open>current_location\<close> and
  appends to the same list.
\<close>

fun rays_for :: "int list list \<Rightarrow> move \<Rightarrow> (int \<times> int) list \<Rightarrow> move list \<Rightarrow> move list option" where
  "rays_for b loc [] moves = Some moves"
| "rays_for b loc ((dx, dy) # rs) moves =
     (case ray_while b dx dy (fst loc) (snd loc) moves of
        None \<Rightarrow> None
      | Some moves' \<Rightarrow> rays_for b loc rs moves')"

text \<open>
  The run of \<^verbatim>\<open>get_legal_moves\<close>: \<^verbatim>\<open>if not current_location\<close> holds for \<^verbatim>\<open>None\<close> only (a
  two-element tuple is true, also \<^verbatim>\<open>(0, 0)\<close>).
\<close>

definition get_legal_moves_run :: "GameState \<Rightarrow> move list option" where
  "get_legal_moves_run s =
     (case player_locations s ! nat (active_player s) of
        None \<Rightarrow> Some (get_blank_spaces s)
      | Some current_location \<Rightarrow> rays_for (board s) current_location rays [])"

text \<open>
  The run returns for every state (lemma \<open>get_legal_moves_returns\<close> below: every entry
  of \<^verbatim>\<open>rays\<close> moves at least one coordinate, so each ray leaves the board). The value of
  the call is the list the run returns.
\<close>

definition get_legal_moves :: "GameState \<Rightarrow> move list" where
  "get_legal_moves s = the (get_legal_moves_run s)"

text \<open>
  \<^verbatim>\<open>forecast_move\<close>. The \<^verbatim>\<open>raise RuntimeError(...)\<close> is the error value. \<^verbatim>\<open>deepcopy(self)\<close>
  is a copy that shares no list with \<^verbatim>\<open>self\<close>; in the embedding a state is a value, the
  copy is the same value, and the three assignments update the copy.
\<close>

datatype error = RuntimeError string

definition forecast_move :: "GameState \<Rightarrow> move \<Rightarrow> error + GameState" where
  "forecast_move s move =
     (if move \<notin> set (get_legal_moves s) then
        Inl (RuntimeError ''Attempted forecast of illegal move'')
      else
        (let newBoard = s;
             newBoard = newBoard\<lparr>board :=
               (board newBoard)[nat (fst move) :=
                  (board newBoard ! nat (fst move))[nat (snd move) := 1]]\<rparr>;
             newBoard = newBoard\<lparr>player_locations :=
               (player_locations newBoard)[nat (active_player s) := Some move]\<rparr>;
             newBoard = newBoard\<lparr>active_player := active_player newBoard XOR 1\<rparr>
         in Inr newBoard))"

section \<open>The search (module functions of gamestate.py)\<close>

text \<open>\<^verbatim>\<open>terminal_test\<close>: \<^verbatim>\<open>not bool(moves)\<close> holds for the empty list only.\<close>

definition terminal_test :: "GameState \<Rightarrow> bool" where
  "terminal_test gameState = (get_legal_moves gameState = [])"

text \<open>
  The values \<^verbatim>\<open>min_value\<close> and \<^verbatim>\<open>max_value\<close> handle: Python integers and the two
  floats \<^verbatim>\<open>float("inf")\<close> and \<^verbatim>\<open>float("-inf")\<close>, compared by \<^verbatim>\<open><\<close>. The built-ins
  \<^verbatim>\<open>min(a, b)\<close> and \<^verbatim>\<open>max(a, b)\<close> return \<open>b\<close> only when it is strictly smaller
  (strictly greater), else \<open>a\<close>.
\<close>

datatype score = NegInf | Fin int | PosInf

fun score_less :: "score \<Rightarrow> score \<Rightarrow> bool" where
  "score_less NegInf NegInf = False"
| "score_less NegInf _ = True"
| "score_less (Fin a) (Fin b) = (a < b)"
| "score_less (Fin a) PosInf = True"
| "score_less (Fin a) NegInf = False"
| "score_less PosInf _ = False"

definition py_min :: "score \<Rightarrow> score \<Rightarrow> score" where
  "py_min a b = (if score_less b a then b else a)"

definition py_max :: "score \<Rightarrow> score \<Rightarrow> score" where
  "py_max a b = (if score_less a b then b else a)"

text \<open>
  \<^verbatim>\<open>min_value\<close> and \<^verbatim>\<open>max_value\<close>. The \<^verbatim>\<open>for\<close> loop is a fold over the legal moves whose
  accumulator is \<open>v\<close>, or the exception that left the loop (a \<^verbatim>\<open>RuntimeError\<close> of
  \<^verbatim>\<open>forecast_move\<close> is not caught anywhere, so it ends the call).
\<close>

function min_value :: "GameState \<Rightarrow> int \<Rightarrow> error + score"
  and max_value :: "GameState \<Rightarrow> int \<Rightarrow> error + score" where
  "min_value gameState depth =
     (if terminal_test gameState then Inr (Fin 1)
      else if depth \<le> 0 then Inr (Fin 0)
      else fold (\<lambda>move r. case r of
                   Inl e \<Rightarrow> Inl e
                 | Inr v \<Rightarrow>
                     (case forecast_move gameState move of
                        Inl e \<Rightarrow> Inl e
                      | Inr child \<Rightarrow>
                          (case max_value child (depth - 1) of
                             Inl e \<Rightarrow> Inl e
                           | Inr w \<Rightarrow> Inr (py_min v w))))
             (get_legal_moves gameState) (Inr PosInf))"
| "max_value gameState depth =
     (if terminal_test gameState then Inr (Fin (- 1))
      else if depth \<le> 0 then Inr (Fin 0)
      else fold (\<lambda>move r. case r of
                   Inl e \<Rightarrow> Inl e
                 | Inr v \<Rightarrow>
                     (case forecast_move gameState move of
                        Inl e \<Rightarrow> Inl e
                      | Inr child \<Rightarrow>
                          (case min_value child (depth - 1) of
                             Inl e \<Rightarrow> Inl e
                           | Inr w \<Rightarrow> Inr (py_max v w))))
             (get_legal_moves gameState) (Inr NegInf))"
  by pat_completeness auto
termination
  by (relation "measure (\<lambda>a. case a of Inl (s, d) \<Rightarrow> nat d | Inr (s, d) \<Rightarrow> nat d)") auto

declare min_value.simps [simp del] max_value.simps [simp del]

text \<open>
  \<^verbatim>\<open>minimax_decision\<close>: the loop state is \<open>(best_score, best_move)\<close>, \<^verbatim>\<open>None\<close> is the
  initial \<open>best_move\<close>, and \<^verbatim>\<open>v > best_score\<close> is \<open>score_less best_score v\<close>.
\<close>

definition minimax_decision :: "GameState \<Rightarrow> int \<Rightarrow> error + move option" where
  "minimax_decision gameState depth =
     (case fold (\<lambda>m r. case r of
                   Inl e \<Rightarrow> Inl e
                 | Inr (best_score, best_move) \<Rightarrow>
                     (case forecast_move gameState m of
                        Inl e \<Rightarrow> Inl e
                      | Inr child \<Rightarrow>
                          (case min_value child (depth - 1) of
                             Inl e \<Rightarrow> Inl e
                           | Inr v \<Rightarrow>
                               if score_less best_score v then Inr (v, Some m)
                               else Inr (best_score, best_move))))
             (get_legal_moves gameState) (Inr (NegInf, None)) of
        Inl e \<Rightarrow> Inl e
      | Inr (best_score, best_move) \<Rightarrow> Inr best_move)"

section \<open>Objects and references\<close>

text \<open>
  The objects of the class are mutable, and \<^verbatim>\<open>forecast_move\<close> writes into a copy made by
  \<^verbatim>\<open>copy.deepcopy\<close>. Whether such a write reaches the parent depends on which lists the
  two objects share, which a state value cannot express. So the constructor,
  \<^verbatim>\<open>forecast_move\<close> and the search are written a second time over an explicit store: a
  reference is an index into the list of all objects, and a new object is appended at
  the end.
\<close>

type_synonym ref = nat

text \<open>
  The four kinds of object the class uses: a \<^verbatim>\<open>GameState\<close> instance (the references of
  its \<^verbatim>\<open>_board\<close> and \<^verbatim>\<open>_player_locations\<close> lists and the integer \<^verbatim>\<open>active_player\<close>), the
  list \<^verbatim>\<open>_board\<close> (its items are references to the columns), a column (a list of
  integers) and the list \<^verbatim>\<open>_player_locations\<close> (its items are \<^verbatim>\<open>None\<close> or tuples;
  integers, tuples and \<^verbatim>\<open>None\<close> are immutable and stored by value).
\<close>

datatype pyobj =
    Instance ref int ref
  | ListOfLists "ref list"
  | ListOfInts "int list"
  | ListOfLocs "move option list"

type_synonym store = "pyobj list"

definition new :: "store \<Rightarrow> pyobj \<Rightarrow> store \<times> ref" where
  "new h obj = (h @ [obj], length h)"

text \<open>Reading a list object, and the state value an instance stands for.\<close>

definition the_columns :: "store \<Rightarrow> ref \<Rightarrow> ref list" where
  "the_columns h b = (case h ! b of ListOfLists cs \<Rightarrow> cs | _ \<Rightarrow> [])"

definition the_ints :: "store \<Rightarrow> ref \<Rightarrow> int list" where
  "the_ints h c = (case h ! c of ListOfInts xs \<Rightarrow> xs | _ \<Rightarrow> [])"

definition the_locs :: "store \<Rightarrow> ref \<Rightarrow> move option list" where
  "the_locs h l = (case h ! l of ListOfLocs ls \<Rightarrow> ls | _ \<Rightarrow> [])"

definition state_of :: "store \<Rightarrow> ref \<Rightarrow> GameState" where
  "state_of h r =
     (case h ! r of
        Instance b a l \<Rightarrow>
          \<lparr>board = map (the_ints h) (the_columns h b), active_player = a,
           player_locations = the_locs h l\<rparr>
      | _ \<Rightarrow> \<lparr>board = [], active_player = 0, player_locations = []\<rparr>)"

text \<open>
  An instance as the class builds it: its references point to objects of the right
  kind, and the columns of its board are different objects.
\<close>

fun is_ints :: "pyobj \<Rightarrow> bool" where
  "is_ints (ListOfInts xs) = True"
| "is_ints _ = False"

fun is_locs :: "pyobj \<Rightarrow> bool" where
  "is_locs (ListOfLocs ls) = True"
| "is_locs _ = False"

definition valid_instance :: "store \<Rightarrow> ref \<Rightarrow> bool" where
  "valid_instance h r =
     (r < length h \<and>
      (case h ! r of
         Instance b a l \<Rightarrow>
           b < length h \<and> l < length h \<and> is_locs (h ! l) \<and>
           (case h ! b of
              ListOfLists cs \<Rightarrow>
                distinct cs \<and> list_all (\<lambda>c. c < length h \<and> is_ints (h ! c)) cs
            | _ \<Rightarrow> False)
       | _ \<Rightarrow> False))"

text \<open>
  \<^verbatim>\<open>copy.deepcopy\<close> of an instance (library code, written from its documented behaviour):
  every list reachable from the instance is copied into a new object, once; the memo
  maps a list already copied to its copy, so that a list that occurs twice is shared in
  the copy as it was in the original. The integers and the items of
  \<^verbatim>\<open>_player_locations\<close> are immutable and are not copied. The order in which the new
  objects are allocated is of no consequence; here the instance comes last.
\<close>

fun deepcopy_columns :: "store \<Rightarrow> (ref \<times> ref) list \<Rightarrow> ref list \<Rightarrow> store \<times> (ref \<times> ref) list \<times> ref list" where
  "deepcopy_columns h memo [] = (h, memo, [])"
| "deepcopy_columns h memo (c # cs) =
     (case map_of memo c of
        Some c' \<Rightarrow>
          (let (h', memo', cs') = deepcopy_columns h memo cs in (h', memo', c' # cs'))
      | None \<Rightarrow>
          (let (h1, c') = new h (h ! c);
               (h', memo', cs') = deepcopy_columns h1 ((c, c') # memo) cs
           in (h', memo', c' # cs')))"

definition deepcopy :: "store \<Rightarrow> ref \<Rightarrow> store \<times> ref" where
  "deepcopy h r =
     (case h ! r of
        Instance b a l \<Rightarrow>
          (let (h, memo, cs') = deepcopy_columns h [] (the_columns h b);
               (h, b') = new h (ListOfLists cs');
               (h, l') = new h (h ! l)
           in new h (Instance b' a l'))
      | _ \<Rightarrow> (h, r))"

text \<open>
  The three assignments of \<^verbatim>\<open>forecast_move\<close>: \<^verbatim>\<open>r._board[x][y] = v\<close>,
  \<^verbatim>\<open>r._player_locations[p] = m\<close> and \<^verbatim>\<open>r.active_player = p\<close>. Each replaces one object of
  the store.
\<close>

definition set_cell :: "store \<Rightarrow> ref \<Rightarrow> int \<Rightarrow> int \<Rightarrow> int \<Rightarrow> store" where
  "set_cell h r x y v =
     (case h ! r of
        Instance b a l \<Rightarrow>
          (let c = the_columns h b ! nat x in h[c := ListOfInts ((the_ints h c)[nat y := v])])
      | _ \<Rightarrow> h)"

definition set_location :: "store \<Rightarrow> ref \<Rightarrow> int \<Rightarrow> move \<Rightarrow> store" where
  "set_location h r p m =
     (case h ! r of
        Instance b a l \<Rightarrow> h[l := ListOfLocs ((the_locs h l)[nat p := Some m])]
      | _ \<Rightarrow> h)"

definition set_active_player :: "store \<Rightarrow> ref \<Rightarrow> int \<Rightarrow> store" where
  "set_active_player h r p =
     (case h ! r of Instance b a l \<Rightarrow> h[r := Instance b p l] | _ \<Rightarrow> h)"

text \<open>
  \<^verbatim>\<open>forecast_move\<close> over the store. The result is the error or the reference of the new
  instance, and the store after the call. \<^verbatim>\<open>get_legal_moves\<close> only reads, so it is applied
  to the state the instance stands for.
\<close>

definition forecast_move_h :: "store \<Rightarrow> ref \<Rightarrow> move \<Rightarrow> (error + ref) \<times> store" where
  "forecast_move_h h self move =
     (if move \<notin> set (get_legal_moves (state_of h self)) then
        (Inl (RuntimeError ''Attempted forecast of illegal move''), h)
      else
        (let (h, newBoard) = deepcopy h self;
             h = set_cell h newBoard (fst move) (snd move) 1;
             h = set_location h newBoard (active_player (state_of h self)) move;
             h = set_active_player h newBoard (active_player (state_of h newBoard) XOR 1)
         in (Inr newBoard, h)))"

text \<open>
  \<^verbatim>\<open>__init__\<close> over the store: the comprehension makes a new column in every iteration.
\<close>

definition GameState_init_h :: "store \<Rightarrow> store \<times> ref" where
  "GameState_init_h h =
     (let (h, cs) = fold (\<lambda>_ (h, cs). let (h, c) = new h (ListOfInts (replicate (nat ylim) 0))
                                       in (h, cs @ [c]))
                      [0..xlim - 1] (h, []);
          (h, b) = new h (ListOfLists cs);
          c = cs ! (length cs - 1);
          h = h[c := ListOfInts ((the_ints h c)[length (the_ints h c) - 1 := 1])];
          (h, l) = new h (ListOfLocs [None, None])
      in new h (Instance b 0 l))"

text \<open>
  The search over the store. The three functions assign to no attribute and to no list
  item; they change the store only through \<^verbatim>\<open>forecast_move\<close>. Each returns its result and
  the store after the call.
\<close>

function min_value_h :: "store \<Rightarrow> ref \<Rightarrow> int \<Rightarrow> (error + score) \<times> store"
  and max_value_h :: "store \<Rightarrow> ref \<Rightarrow> int \<Rightarrow> (error + score) \<times> store" where
  "min_value_h h gameState depth =
     (if terminal_test (state_of h gameState) then (Inr (Fin 1), h)
      else if depth \<le> 0 then (Inr (Fin 0), h)
      else fold (\<lambda>move (r, h). case r of
                   Inl e \<Rightarrow> (Inl e, h)
                 | Inr v \<Rightarrow>
                     (case forecast_move_h h gameState move of
                        (Inl e, h) \<Rightarrow> (Inl e, h)
                      | (Inr child, h) \<Rightarrow>
                          (case max_value_h h child (depth - 1) of
                             (Inl e, h) \<Rightarrow> (Inl e, h)
                           | (Inr w, h) \<Rightarrow> (Inr (py_min v w), h))))
             (get_legal_moves (state_of h gameState)) (Inr PosInf, h))"
| "max_value_h h gameState depth =
     (if terminal_test (state_of h gameState) then (Inr (Fin (- 1)), h)
      else if depth \<le> 0 then (Inr (Fin 0), h)
      else fold (\<lambda>move (r, h). case r of
                   Inl e \<Rightarrow> (Inl e, h)
                 | Inr v \<Rightarrow>
                     (case forecast_move_h h gameState move of
                        (Inl e, h) \<Rightarrow> (Inl e, h)
                      | (Inr child, h) \<Rightarrow>
                          (case min_value_h h child (depth - 1) of
                             (Inl e, h) \<Rightarrow> (Inl e, h)
                           | (Inr w, h) \<Rightarrow> (Inr (py_max v w), h))))
             (get_legal_moves (state_of h gameState)) (Inr NegInf, h))"
  by pat_completeness auto
termination
  by (relation "measure (\<lambda>a. case a of Inl (h, s, d) \<Rightarrow> nat d | Inr (h, s, d) \<Rightarrow> nat d)") auto

declare min_value_h.simps [simp del] max_value_h.simps [simp del]


definition minimax_decision_h :: "store \<Rightarrow> ref \<Rightarrow> int \<Rightarrow> (error + move option) \<times> store" where
  "minimax_decision_h h gameState depth =
     (case fold (\<lambda>m (r, h). case r of
                   Inl e \<Rightarrow> (Inl e, h)
                 | Inr (best_score, best_move) \<Rightarrow>
                     (case forecast_move_h h gameState m of
                        (Inl e, h) \<Rightarrow> (Inl e, h)
                      | (Inr child, h) \<Rightarrow>
                          (case min_value_h h child (depth - 1) of
                             (Inl e, h) \<Rightarrow> (Inl e, h)
                           | (Inr v, h) \<Rightarrow>
                               (if score_less best_score v then Inr (v, Some m)
                                else Inr (best_score, best_move), h))))
             (get_legal_moves (state_of h gameState)) (Inr (NegInf, None), h) of
        (Inl e, h) \<Rightarrow> (Inl e, h)
      | (Inr (best_score, best_move), h) \<Rightarrow> (Inr best_move, h))"

section \<open>Notions of the specification\<close>

text \<open>
  The definitions of this section are not translations of source functions: they name
  what the specification talks about (cells on the board, open and blocked cells, the
  cells of a ray, a line of play), so that the theorems can compare the source's
  functions with them.
\<close>

text \<open>A coordinate pair is on the board: column in \<open>[0, xlim)\<close>, row in \<open>[0, ylim)\<close>.\<close>

definition in_board :: "move \<Rightarrow> bool" where
  "in_board c = (0 \<le> fst c \<and> fst c < xlim \<and> 0 \<le> snd c \<and> snd c < ylim)"

text \<open>A cell of the board is open (its entry is 0) or blocked (its entry is not 0).\<close>

definition is_open :: "int list list \<Rightarrow> move \<Rightarrow> bool" where
  "is_open b c = (in_board c \<and> b ! nat (fst c) ! nat (snd c) = 0)"

definition blocked :: "int list list \<Rightarrow> move \<Rightarrow> bool" where
  "blocked b c = (in_board c \<and> b ! nat (fst c) ! nat (snd c) \<noteq> 0)"

text \<open>
  Row-major order, the row as the outer loop: \<open>c\<close> comes before \<open>c'\<close> when its row is
  smaller, or the rows are equal and its column is smaller.
\<close>

definition row_major_less :: "move \<Rightarrow> move \<Rightarrow> bool" where
  "row_major_less c c' = (snd c < snd c' \<or> (snd c = snd c' \<and> fst c < fst c'))"

text \<open>
  The cell \<open>k\<close> steps from \<open>loc\<close> along the ray \<open>d\<close>, and the moves of one ray: the cells
  at distance 1, 2, ... as long as they are on the board and open. From a cell of the
  board no ray has more than \<open>max xlim ylim - 1\<close> cells on the board.
\<close>

definition ray_step :: "move \<Rightarrow> int \<times> int \<Rightarrow> int \<Rightarrow> move" where
  "ray_step loc d k = (fst loc + k * fst d, snd loc + k * snd d)"

definition ray_moves :: "int list list \<Rightarrow> move \<Rightarrow> int \<times> int \<Rightarrow> move list" where
  "ray_moves b loc d = takeWhile (is_open b) (map (ray_step loc d) [1..max xlim ylim - 1])"

text \<open>
  The states the class builds: a board of \<open>xlim\<close> columns of \<open>ylim\<close> cells, a player
  index 0 or 1, two location slots, and every location on the board. \<open>GameState_init\<close>
  is such a state and \<open>forecast_move\<close> keeps the property (lemmas \<open>wf_state_init\<close> and
  \<open>wf_state_forecast_move\<close>); on these states every subscript of the source is in
  range, so no \<^verbatim>\<open>IndexError\<close> arises.
\<close>

definition wf_state :: "GameState \<Rightarrow> bool" where
  "wf_state s =
     (length (board s) = nat xlim \<and>
      list_all (\<lambda>col. length col = nat ylim) (board s) \<and>
      (active_player s = 0 \<or> active_player s = 1) \<and>
      length (player_locations s) = 2 \<and>
      list_all (\<lambda>l. case l of None \<Rightarrow> True | Some c \<Rightarrow> in_board c) (player_locations s))"

text \<open>
  A line of play: the moves applied one after the other by \<open>forecast_move\<close>, stopping at
  the first error.
\<close>

fun play :: "GameState \<Rightarrow> move list \<Rightarrow> error + GameState" where
  "play s [] = Inr s"
| "play s (m # ms) =
     (case forecast_move s m of Inl e \<Rightarrow> Inl e | Inr s' \<Rightarrow> play s' ms)"

text \<open>
  The value the search gives a move: the evaluator \<open>g\<close> applied to the forecast state
  (the expression \<^verbatim>\<open>g(gameState.forecast_move(move))\<close> of the three loops).
\<close>

definition forecast_then :: "(GameState \<Rightarrow> error + score) \<Rightarrow> GameState \<Rightarrow> move \<Rightarrow> error + score" where
  "forecast_then g s m = (case forecast_move s m of Inl e \<Rightarrow> Inl e | Inr child \<Rightarrow> g child)"

text \<open>Every location slot that holds a cell holds a blocked cell of the board.\<close>

definition locations_blocked :: "GameState \<Rightarrow> bool" where
  "locations_blocked s =
     list_all (\<lambda>l. case l of None \<Rightarrow> True | Some c \<Rightarrow> blocked (board s) c) (player_locations s)"

text \<open>
  One step of the loop of \<^verbatim>\<open>minimax_decision\<close> on a move and its integer value: the pair
  \<open>(best_score, best_move)\<close> is replaced when the value is strictly greater.
\<close>

definition keep_best :: "move \<times> int \<Rightarrow> score \<times> move option \<Rightarrow> score \<times> move option" where
  "keep_best p st =
     (if score_less (fst st) (Fin (snd p)) then (Fin (snd p), Some (fst p)) else st)"

text \<open>
  A call of the search is \<open>Inl (s, d)\<close> for \<^verbatim>\<open>min_value(s, d)\<close> and \<open>Inr (s, d)\<close> for
  \<^verbatim>\<open>max_value(s, d)\<close>; these are its state and its depth.
\<close>

definition call_state :: "GameState \<times> int + GameState \<times> int \<Rightarrow> GameState" where
  "call_state c = (case c of Inl (s, d) \<Rightarrow> s | Inr (s, d) \<Rightarrow> s)"

definition call_depth :: "GameState \<times> int + GameState \<times> int \<Rightarrow> int" where
  "call_depth c = (case c of Inl (s, d) \<Rightarrow> d | Inr (s, d) \<Rightarrow> d)"

section \<open>The ray loop\<close>

lemma ray_cells_shift:
  "map (\<lambda>k. (x + int k * dx, y + int k * dy)) [1..<Suc (Suc n)] =
     (x + dx, y + dy) # map (\<lambda>k. ((x + dx) + int k * dx, (y + dy) + int k * dy)) [1..<Suc n]"
proof -
  have "[1..<Suc (Suc n)] = 1 # map Suc [1..<Suc n]"
    by (simp add: upt_conv_Cons map_Suc_upt del: upt_Suc)
  then show ?thesis
    by (simp add: comp_def algebra_simps del: upt_Suc)
qed

text \<open>
  If the ray has left the board after \<open>n + 1\<close> steps, the loop returns, and it has
  appended the leading open cells among the first \<open>n\<close>.
\<close>

lemma ray_while_takeWhile:
  "\<not> in_board (x + (int n + 1) * dx, y + (int n + 1) * dy) \<Longrightarrow>
   ray_while b dx dy x y moves =
     Some (moves @ takeWhile (is_open b) (map (\<lambda>k. (x + int k * dx, y + int k * dy)) [1..<Suc n]))"
proof (induction n arbitrary: x y moves)
  case 0
  then show ?case
    by (subst ray_while.simps) (auto simp: in_board_def)
next
  case (Suc n)
  have off: "\<not> in_board ((x + dx) + (int n + 1) * dx, (y + dy) + (int n + 1) * dy)"
    using Suc.prems by (simp add: algebra_simps)
  show ?case
  proof (cases "is_open b (x + dx, y + dy)")
    case True
    then have "ray_while b dx dy x y moves =
        ray_while b dx dy (x + dx) (y + dy) (moves @ [(x + dx, y + dy)])"
      by (subst ray_while.simps) (simp add: is_open_def in_board_def)
    also have "\<dots> = Some ((moves @ [(x + dx, y + dy)]) @ takeWhile (is_open b)
        (map (\<lambda>k. ((x + dx) + int k * dx, (y + dy) + int k * dy)) [1..<Suc n]))"
      by (rule Suc.IH [OF off])
    finally show ?thesis
      using True by (simp only: ray_cells_shift) simp
  next
    case False
    then have "ray_while b dx dy x y moves = Some moves"
      by (subst ray_while.simps) (auto simp: is_open_def in_board_def)
    then show ?thesis
      using False by (simp only: ray_cells_shift) simp
  qed
qed

lemma ray_while_ray_moves:
  assumes "in_board (x, y)" and "(dx, dy) \<in> set rays"
  shows "ray_while b dx dy x y moves = Some (moves @ ray_moves b (x, y) (dx, dy))"
proof -
  have off: "\<not> in_board (x + (int 2 + 1) * dx, y + (int 2 + 1) * dy)"
    using assms by (auto simp: in_board_def rays_def xlim_def ylim_def)
  have "[1..max xlim ylim - 1] = [1, 2]"
    by (simp add: xlim_def ylim_def upto.simps)
  moreover have "[1..<Suc 2] = [1, 2]"
    by (simp add: upt_conv_Cons)
  ultimately show ?thesis
    using ray_while_takeWhile [OF off, of b moves]
    by (simp add: ray_moves_def ray_step_def del: upt_Suc)
qed

text \<open>The loop returns for each of the eight rays, from any position and on any board.\<close>

lemma ray_while_returns:
  assumes "(dx, dy) \<in> set rays"
  shows "\<exists>r. ray_while b dx dy x y moves = Some r"
proof (cases "in_board (x + dx, y + dy)")
  case True
  show ?thesis
    by (subst ray_while.simps) (simp add: ray_while_ray_moves [OF True assms])
next
  case False
  then show ?thesis
    by (subst ray_while.simps) (auto simp: in_board_def)
qed

lemma rays_for_returns:
  "set rs \<subseteq> set rays \<Longrightarrow> \<exists>r. rays_for b loc rs moves = Some r"
proof (induction rs arbitrary: moves)
  case Nil
  then show ?case by simp
next
  case (Cons d rs)
  obtain dx dy where d: "d = (dx, dy)" by (cases d)
  with Cons.prems have "(dx, dy) \<in> set rays" by simp
  then obtain r where "ray_while b dx dy (fst loc) (snd loc) moves = Some r"
    using ray_while_returns by blast
  with Cons d show ?case by simp
qed

lemma get_legal_moves_returns: "\<exists>moves. get_legal_moves_run s = Some moves"
  by (simp add: get_legal_moves_run_def rays_for_returns split: option.split)

lemma rays_for_ray_moves:
  "in_board loc \<Longrightarrow> set rs \<subseteq> set rays \<Longrightarrow>
   rays_for b loc rs moves = Some (moves @ concat (map (ray_moves b loc) rs))"
proof (induction rs arbitrary: moves)
  case Nil
  then show ?case by simp
next
  case (Cons d rs)
  obtain dx dy where d: "d = (dx, dy)" by (cases d)
  with Cons.prems have "(dx, dy) \<in> set rays" by simp
  with Cons.prems have "ray_while b dx dy (fst loc) (snd loc) moves =
      Some (moves @ ray_moves b loc (dx, dy))"
    using ray_while_ray_moves [of "fst loc" "snd loc" dx dy b moves] by simp
  with Cons d show ?case by simp
qed

section \<open>Legal moves\<close>

lemma wf_state_init: "wf_state GameState_init"
  by (simp add: wf_state_def GameState_init_def xlim_def ylim_def upto.simps)

lemma get_legal_moves_unplaced:
  "player_locations s ! nat (active_player s) = None \<Longrightarrow> get_legal_moves s = get_blank_spaces s"
  by (simp add: get_legal_moves_def get_legal_moves_run_def)

lemma get_legal_moves_placed:
  "player_locations s ! nat (active_player s) = Some loc \<Longrightarrow> in_board loc \<Longrightarrow>
   get_legal_moves s = concat (map (ray_moves (board s) loc) rays)"
  by (simp add: get_legal_moves_def get_legal_moves_run_def rays_for_ray_moves)

lemma wf_state_active_loc:
  assumes "wf_state s" and "player_locations s ! nat (active_player s) = Some loc"
  shows "in_board loc"
proof -
  have "nat (active_player s) < length (player_locations s)"
    using assms(1) by (auto simp: wf_state_def)
  then have "Some loc \<in> set (player_locations s)"
    using assms(2) by (metis nth_mem)
  then show ?thesis
    using assms(1) by (auto simp: wf_state_def list_all_iff)
qed

lemma get_blank_spaces_filter:
  "get_blank_spaces s = filter (is_open (board s)) [(0,0),(1,0),(2,0),(0,1),(1,1),(2,1)]"
  by (simp add: get_blank_spaces_def is_open_def in_board_def xlim_def ylim_def upto.simps)

lemma set_get_blank_spaces: "set (get_blank_spaces s) = {c. is_open (board s) c}"
  by (auto simp: get_blank_spaces_def is_open_def in_board_def)

lemma sorted_get_blank_spaces: "sorted_wrt row_major_less (get_blank_spaces s)"
  unfolding get_blank_spaces_filter
  by (rule sorted_wrt_filter) (simp add: row_major_less_def)

lemma GameState_init_value:
  "GameState_init =
     \<lparr>board = [[0, 0], [0, 0], [0, 1]], active_player = 0, player_locations = [None, None]\<rparr>"
  by (simp add: GameState_init_def Let_def xlim_def ylim_def upto.simps eval_nat_numeral)

lemma ray_moves_cells:
  "ray_moves b loc d = takeWhile (is_open b) [ray_step loc d 1, ray_step loc d 2]"
  by (simp add: ray_moves_def xlim_def ylim_def upto.simps)

lemma ray_off_board:
  "in_board loc \<Longrightarrow> d \<in> set rays \<Longrightarrow> 3 \<le> k \<Longrightarrow> \<not> in_board (ray_step loc d k)"
  by (auto simp: in_board_def rays_def ray_step_def xlim_def ylim_def)

lemma ray_moves_iff:
  assumes "in_board loc" and "d \<in> set rays"
  shows "c \<in> set (ray_moves b loc d) \<longleftrightarrow>
         (\<exists>k\<ge>1. c = ray_step loc d k \<and> (\<forall>j. 1 \<le> j \<and> j \<le> k \<longrightarrow> is_open b (ray_step loc d j)))"
proof
  assume "c \<in> set (ray_moves b loc d)"
  then have "(c = ray_step loc d 1 \<and> is_open b (ray_step loc d 1)) \<or>
      (c = ray_step loc d 2 \<and> is_open b (ray_step loc d 1) \<and> is_open b (ray_step loc d 2))"
    by (auto simp: ray_moves_cells split: if_splits)
  then show "\<exists>k\<ge>1. c = ray_step loc d k \<and>
      (\<forall>j. 1 \<le> j \<and> j \<le> k \<longrightarrow> is_open b (ray_step loc d j))"
  proof
    assume a: "c = ray_step loc d 1 \<and> is_open b (ray_step loc d 1)"
    have "j = 1" if "1 \<le> j \<and> j \<le> 1" for j :: int
      using that by simp
    with a show ?thesis
      by (intro exI [of _ 1]) auto
  next
    assume a: "c = ray_step loc d 2 \<and> is_open b (ray_step loc d 1) \<and> is_open b (ray_step loc d 2)"
    have "j = 1 \<or> j = 2" if "1 \<le> j \<and> j \<le> 2" for j :: int
      using that by auto
    with a show ?thesis
      by (intro exI [of _ 2]) auto
  qed
next
  assume "\<exists>k\<ge>1. c = ray_step loc d k \<and>
      (\<forall>j. 1 \<le> j \<and> j \<le> k \<longrightarrow> is_open b (ray_step loc d j))"
  then obtain k where k: "1 \<le> k" and c: "c = ray_step loc d k"
    and o: "\<And>j. 1 \<le> j \<Longrightarrow> j \<le> k \<Longrightarrow> is_open b (ray_step loc d j)"
    by blast
  from o [of k] k have "in_board (ray_step loc d k)"
    by (simp add: is_open_def)
  with ray_off_board [OF assms, of k] have "k < 3"
    by (cases "3 \<le> k") simp_all
  with k have "k = 1 \<or> k = 2"
    by auto
  then show "c \<in> set (ray_moves b loc d)"
  proof
    assume "k = 1"
    with c o [of 1] show ?thesis
      by (simp add: ray_moves_cells)
  next
    assume "k = 2"
    with c o [of 1] o [of 2] show ?thesis
      by (simp add: ray_moves_cells)
  qed
qed

lemma legal_moves_placed_iff:
  assumes "player_locations s ! nat (active_player s) = Some loc" and "in_board loc"
  shows "c \<in> set (get_legal_moves s) \<longleftrightarrow>
         (\<exists>d\<in>set rays. \<exists>k\<ge>1. c = ray_step loc d k \<and>
            (\<forall>j. 1 \<le> j \<and> j \<le> k \<longrightarrow> is_open (board s) (ray_step loc d j)))"
proof -
  have "c \<in> set (get_legal_moves s) \<longleftrightarrow> (\<exists>d\<in>set rays. c \<in> set (ray_moves (board s) loc d))"
    by (simp add: get_legal_moves_placed [OF assms])
  also have "\<dots> \<longleftrightarrow> (\<exists>d\<in>set rays. \<exists>k\<ge>1. c = ray_step loc d k \<and>
            (\<forall>j. 1 \<le> j \<and> j \<le> k \<longrightarrow> is_open (board s) (ray_step loc d j)))"
    using ray_moves_iff [OF assms(2)] by (intro bex_cong) simp_all
  finally show ?thesis .
qed

text \<open>
  Claim C3. In a state the class builds, \<^verbatim>\<open>get_legal_moves\<close> returns, when the active
  player is unplaced, exactly the open cells of the board, in row-major order with the
  row as the outer loop; when the active player is at \<open>loc\<close>, the moves of the eight
  rays from \<open>loc\<close>, one ray after the other in the order (+col), (+col,-row), (-row),
  (-col,-row), (-col), (-col,+row), (+row), (+col,+row), each ray giving its cells in
  increasing distance up to, and without, the first cell that is blocked or off the
  board. So the moves are exactly the cells \<open>k \<ge> 1\<close> steps along a ray such that every
  cell of the ray up to that one is on the board and open. The call reads the state
  only: the source method assigns to no attribute, and the embedding is a function of
  the state.
\<close>

theorem get_legal_moves_spec:
  assumes "wf_state s"
  shows "case player_locations s ! nat (active_player s) of
           None \<Rightarrow>
             set (get_legal_moves s) = {c. is_open (board s) c} \<and>
             sorted_wrt row_major_less (get_legal_moves s)
         | Some loc \<Rightarrow>
             get_legal_moves s =
               concat (map (ray_moves (board s) loc)
                 [(1, 0), (1, -1), (0, -1), (-1, -1), (-1, 0), (-1, 1), (0, 1), (1, 1)]) \<and>
             (\<forall>c. c \<in> set (get_legal_moves s) \<longleftrightarrow>
                (\<exists>d\<in>set rays. \<exists>k\<ge>1. c = ray_step loc d k \<and>
                   (\<forall>j. 1 \<le> j \<and> j \<le> k \<longrightarrow> is_open (board s) (ray_step loc d j))))"
proof (cases "player_locations s ! nat (active_player s)")
  case None
  then show ?thesis
    by (simp add: get_legal_moves_unplaced set_get_blank_spaces sorted_get_blank_spaces)
next
  case (Some loc)
  then have inb: "in_board loc"
    using assms wf_state_active_loc by blast
  with Some have "get_legal_moves s = concat (map (ray_moves (board s) loc) rays)"
    by (rule get_legal_moves_placed)
  then have "get_legal_moves s =
      concat (map (ray_moves (board s) loc)
        [(1, 0), (1, -1), (0, -1), (-1, -1), (-1, 0), (-1, 1), (0, 1), (1, 1)])"
    by (simp only: rays_def)
  with legal_moves_placed_iff [OF Some inb] Some show ?thesis
    by simp
qed

theorem get_legal_moves_spec_witness:
  "wf_state GameState_init \<and>
   set (get_legal_moves GameState_init) = {c. is_open (board GameState_init) c} \<and>
   sorted_wrt row_major_less (get_legal_moves GameState_init) \<and>
   wf_state \<lparr>board = [[1, 0], [1, 0], [0, 1]], active_player = 0,
             player_locations = [Some (0, 0), Some (1, 0)]\<rparr> \<and>
   get_legal_moves \<lparr>board = [[1, 0], [1, 0], [0, 1]], active_player = 0,
             player_locations = [Some (0, 0), Some (1, 0)]\<rparr> = [(0, 1), (1, 1)]"
proof -
  let ?s = "\<lparr>board = [[1, 0], [1, 0], [0, 1]], active_player = 0,
             player_locations = [Some (0, 0), Some (1, 0)]\<rparr>"
  have w0: "wf_state GameState_init"
    by (rule wf_state_init)
  have w2: "wf_state ?s"
    by (simp add: wf_state_def in_board_def xlim_def ylim_def)
  have "player_locations GameState_init ! nat (active_player GameState_init) = None"
    by (simp add: GameState_init_value)
  with get_legal_moves_spec [OF w0]
  have a: "set (get_legal_moves GameState_init) = {c. is_open (board GameState_init) c} \<and>
      sorted_wrt row_major_less (get_legal_moves GameState_init)"
    by simp
  have "player_locations ?s ! nat (active_player ?s) = Some (0, 0)"
    by simp
  with get_legal_moves_spec [OF w2]
  have "get_legal_moves ?s =
      concat (map (ray_moves (board ?s) (0, 0))
        [(1, 0), (1, -1), (0, -1), (-1, -1), (-1, 0), (-1, 1), (0, 1), (1, 1)])"
    by simp
  then have b: "get_legal_moves ?s = [(0, 1), (1, 1)]"
    by (simp add: ray_moves_cells ray_step_def is_open_def in_board_def xlim_def ylim_def)
  from w0 w2 a b show ?thesis
    by blast
qed

lemma get_legal_moves_init:
  "get_legal_moves GameState_init = [(0, 0), (1, 0), (2, 0), (0, 1), (1, 1)]"
  by (simp add: get_legal_moves_def get_legal_moves_run_def GameState_init_value
      get_blank_spaces_def xlim_def ylim_def upto.simps)

lemma forecast_move_init_00:
  "forecast_move GameState_init (0, 0) =
     Inr \<lparr>board = [[1, 0], [0, 0], [0, 1]], active_player = 1,
          player_locations = [Some (0, 0), None]\<rparr>"
  by (simp add: forecast_move_def get_legal_moves_init)
     (simp add: GameState_init_value)

lemma get_legal_moves_after_00:
  "get_legal_moves \<lparr>board = [[1, 0], [0, 0], [0, 1]], active_player = 1,
          player_locations = [Some (0, 0), None]\<rparr> = [(1, 0), (2, 0), (0, 1), (1, 1)]"
  by (simp add: get_legal_moves_def get_legal_moves_run_def
      get_blank_spaces_def xlim_def ylim_def upto.simps)

text \<open>
  Claim C6, as amended. On the 3 x 2 board with the corner (2, 1) blocked, the initial
  state has the legal moves (0,0), (1,0), (2,0), (0,1), (1,1) in this order; after
  \<^verbatim>\<open>forecast_move((0, 0))\<close> player 0 is at (0, 0), the cells (0, 0) and (2, 1) are
  blocked and the active player is 1; the legal moves of that state are the four cells
  (1,0), (2,0), (0,1), (1,1) in this order: player 1 is still unplaced, so the open
  cells come in row-major order.
\<close>

theorem scenario_3x2:
  "get_legal_moves GameState_init = [(0, 0), (1, 0), (2, 0), (0, 1), (1, 1)] \<and>
   forecast_move GameState_init (0, 0) =
     Inr \<lparr>board = [[1, 0], [0, 0], [0, 1]], active_player = 1,
          player_locations = [Some (0, 0), None]\<rparr> \<and>
   get_legal_moves \<lparr>board = [[1, 0], [0, 0], [0, 1]], active_player = 1,
          player_locations = [Some (0, 0), None]\<rparr> = [(1, 0), (2, 0), (0, 1), (1, 1)]"
  by (simp only: get_legal_moves_init forecast_move_init_00 get_legal_moves_after_00)

text \<open>
  The order the claim gives for the last list, (1,0), (2,0), (1,1), (0,1), is not the
  order the call returns.
\<close>

theorem scenario_3x2_counterexample:
  "forecast_move GameState_init (0, 0) =
     Inr \<lparr>board = [[1, 0], [0, 0], [0, 1]], active_player = 1,
          player_locations = [Some (0, 0), None]\<rparr> \<and>
   get_legal_moves \<lparr>board = [[1, 0], [0, 0], [0, 1]], active_player = 1,
          player_locations = [Some (0, 0), None]\<rparr> \<noteq> [(1, 0), (2, 0), (1, 1), (0, 1)]"
  by (simp only: forecast_move_init_00 get_legal_moves_after_00) simp

section \<open>Applying a move\<close>

lemma legal_moves_open:
  assumes "wf_state s" and "m \<in> set (get_legal_moves s)"
  shows "is_open (board s) m"
proof (cases "player_locations s ! nat (active_player s)")
  case None
  with assms(2) show ?thesis
    by (simp add: get_legal_moves_unplaced set_get_blank_spaces)
next
  case (Some loc)
  then have "in_board loc"
    using assms(1) wf_state_active_loc by blast
  with Some assms(2) obtain d where "m \<in> set (ray_moves (board s) loc d)"
    by (auto simp: get_legal_moves_placed)
  then show ?thesis
    unfolding ray_moves_def by (rule set_takeWhileD [THEN conjunct2])
qed

lemma forecast_move_legal:
  "m \<in> set (get_legal_moves s) \<Longrightarrow>
   forecast_move s m =
     Inr \<lparr>board = (board s)[nat (fst m) := (board s ! nat (fst m))[nat (snd m) := 1]],
          active_player = active_player s XOR 1,
          player_locations = (player_locations s)[nat (active_player s) := Some m]\<rparr>"
  by (simp add: forecast_move_def Let_def)

lemma forecast_move_illegal:
  "m \<notin> set (get_legal_moves s) \<Longrightarrow>
   forecast_move s m = Inl (RuntimeError ''Attempted forecast of illegal move'')"
  by (simp add: forecast_move_def)

lemma forecast_move_Inr_iff:
  "(forecast_move s m = Inr s') =
     (m \<in> set (get_legal_moves s) \<and>
      s' = \<lparr>board = (board s)[nat (fst m) := (board s ! nat (fst m))[nat (snd m) := 1]],
            active_player = active_player s XOR 1,
            player_locations = (player_locations s)[nat (active_player s) := Some m]\<rparr>)"
  by (cases "m \<in> set (get_legal_moves s)")
     (auto simp: forecast_move_legal forecast_move_illegal)

lemma list_all_update:
  "list_all P xs \<Longrightarrow> P v \<Longrightarrow> list_all P (xs[i := v])"
  by (auto simp: list_all_iff dest: set_update_subset_insert [THEN subsetD])

lemma wf_state_forecast_move:
  assumes "wf_state s" and "forecast_move s m = Inr s'"
  shows "wf_state s'"
proof -
  from assms(2) have m: "m \<in> set (get_legal_moves s)"
    and s': "s' = \<lparr>board = (board s)[nat (fst m) := (board s ! nat (fst m))[nat (snd m) := 1]],
            active_player = active_player s XOR 1,
            player_locations = (player_locations s)[nat (active_player s) := Some m]\<rparr>"
    by (simp_all add: forecast_move_Inr_iff)
  from assms(1) m have "in_board m"
    using legal_moves_open by (auto simp: is_open_def)
  then have "nat (fst m) < length (board s)"
    using assms(1) by (simp add: in_board_def wf_state_def)
  then have "length (board s ! nat (fst m)) = nat ylim"
    using assms(1) by (simp add: wf_state_def list_all_length)
  then have cols: "list_all (\<lambda>col. length col = nat ylim) (board s')"
    using assms(1) by (simp add: s' wf_state_def list_all_update)
  have locs: "list_all (\<lambda>l. case l of None \<Rightarrow> True | Some c \<Rightarrow> in_board c) (player_locations s')"
    using assms(1) \<open>in_board m\<close> by (simp add: s' wf_state_def list_all_update)
  have "active_player s' = 0 \<or> active_player s' = 1"
    using assms(1) by (auto simp: s' wf_state_def)
  with cols locs assms(1) show ?thesis
    by (simp add: s' wf_state_def)
qed

text \<open>The cell of a board after one cell was set.\<close>

lemma cell_update:
  assumes "length b = nat xlim" and "list_all (\<lambda>col. length col = nat ylim) b"
    and "in_board m" and "in_board c"
  shows "b[nat (fst m) := (b ! nat (fst m))[nat (snd m) := v]] ! nat (fst c) ! nat (snd c) =
           (if c = m then v else b ! nat (fst c) ! nat (snd c))"
proof -
  have "nat (fst c) < length b" "nat (fst m) < length b"
    using assms by (auto simp: in_board_def)
  moreover have "nat (snd c) < length (b ! nat (fst c))" "nat (snd m) < length (b ! nat (fst m))"
    using assms by (auto simp: in_board_def list_all_length)
  moreover have "c = m \<longleftrightarrow> nat (fst c) = nat (fst m) \<and> nat (snd c) = nat (snd m)"
    using assms(3,4) by (auto simp: in_board_def prod_eq_iff)
  ultimately show ?thesis
    by (auto simp: nth_list_update)
qed

lemma finite_in_board: "finite {c. in_board c}"
proof -
  have "{c. in_board c} \<subseteq> {0..<xlim} \<times> {0..<ylim}"
    by (auto simp: in_board_def)
  then show ?thesis
    by (rule finite_subset) simp
qed

lemma finite_blocked: "finite {c. blocked b c}"
  by (rule finite_subset [OF _ finite_in_board]) (auto simp: blocked_def)

lemma forecast_move_cells:
  assumes "wf_state s" and "forecast_move s m = Inr s'" and "in_board c"
  shows "board s' ! nat (fst c) ! nat (snd c) =
           (if c = m then 1 else board s ! nat (fst c) ! nat (snd c))"
proof -
  from assms(2) have m: "m \<in> set (get_legal_moves s)"
    and s': "board s' = (board s)[nat (fst m) := (board s ! nat (fst m))[nat (snd m) := 1]]"
    by (simp_all add: forecast_move_Inr_iff)
  from assms(1) m have "in_board m"
    using legal_moves_open by (auto simp: is_open_def)
  with assms(1,3) show ?thesis
    by (simp add: s' wf_state_def cell_update)
qed

lemma blocked_forecast_move:
  assumes "wf_state s" and "forecast_move s m = Inr s'"
  shows "blocked (board s') c = (c = m \<or> blocked (board s) c)"
proof -
  from assms(2) have "m \<in> set (get_legal_moves s)"
    by (simp add: forecast_move_Inr_iff)
  with assms(1) have "in_board m"
    using legal_moves_open by (auto simp: is_open_def)
  then show ?thesis
    using forecast_move_cells [OF assms, of c] by (cases "c = m") (auto simp: blocked_def)
qed

lemma forecast_move_value:
  assumes "wf_state s" and "forecast_move s m = Inr s'"
  shows "wf_state s' \<and> is_open (board s) m \<and>
         (\<forall>c. in_board c \<longrightarrow>
            board s' ! nat (fst c) ! nat (snd c) =
              (if c = m then 1 else board s ! nat (fst c) ! nat (snd c))) \<and>
         {c. blocked (board s') c} = insert m {c. blocked (board s) c} \<and>
         card {c. blocked (board s') c} = Suc (card {c. blocked (board s) c}) \<and>
         player_locations s' ! nat (active_player s) = Some m \<and>
         player_locations s' ! nat (1 - active_player s) =
           player_locations s ! nat (1 - active_player s) \<and>
         active_player s' = 1 - active_player s"
proof -
  from assms(2) have m: "m \<in> set (get_legal_moves s)"
    and s': "s' = \<lparr>board = (board s)[nat (fst m) := (board s ! nat (fst m))[nat (snd m) := 1]],
          active_player = active_player s XOR 1,
          player_locations = (player_locations s)[nat (active_player s) := Some m]\<rparr>"
    by (simp_all add: forecast_move_Inr_iff)
  have wf': "wf_state s'"
    using assms by (rule wf_state_forecast_move)
  have op: "is_open (board s) m"
    using assms(1) m by (rule legal_moves_open)
  have cells: "in_board c \<Longrightarrow>
      board s' ! nat (fst c) ! nat (snd c) =
        (if c = m then 1 else board s ! nat (fst c) ! nat (snd c))" for c
    using assms by (rule forecast_move_cells)
  have "blocked (board s') c = (c = m \<or> blocked (board s) c)" for c
    using assms by (rule blocked_forecast_move)
  then have bl: "{c. blocked (board s') c} = insert m {c. blocked (board s) c}"
    by blast
  have "m \<notin> {c. blocked (board s) c}"
    using op by (simp add: blocked_def is_open_def)
  then have cd: "card {c. blocked (board s') c} = Suc (card {c. blocked (board s) c})"
    unfolding bl using finite_blocked by (simp add: card_insert_disjoint)
  have ap: "active_player s = 0 \<or> active_player s = 1"
    and len: "length (player_locations s) = 2"
    using assms(1) by (simp_all add: wf_state_def)
  have l1: "player_locations s' ! nat (active_player s) = Some m"
    using ap len by (auto simp: s')
  have l2: "player_locations s' ! nat (1 - active_player s) =
      player_locations s ! nat (1 - active_player s)"
    using ap len by (auto simp: s')
  have a: "active_player s' = 1 - active_player s"
    using ap by (auto simp: s')
  from wf' op cells bl cd l1 l2 a show ?thesis
    by blast
qed

subsection \<open>The store\<close>

lemma deepcopy_columns_fresh:
  "distinct cs \<Longrightarrow> set cs \<inter> fst ` set memo = {} \<Longrightarrow> \<forall>c\<in>set cs. c < length h \<Longrightarrow>
   \<exists>memo'. deepcopy_columns h memo cs =
     (h @ map (\<lambda>c. h ! c) cs, memo', [length h..<length h + length cs])"
proof (induction cs arbitrary: h memo)
  case Nil
  then show ?case by simp
next
  case (Cons c cs)
  have n: "map_of memo c = None"
    using Cons.prems(2) by (auto simp: map_of_eq_None_iff)
  have d: "distinct cs" and i: "set cs \<inter> fst ` set ((c, length h) # memo) = {}"
    and l: "\<forall>c'\<in>set cs. c' < length (h @ [h ! c])"
    using Cons.prems by auto
  have m: "map (\<lambda>c'. (h @ [h ! c]) ! c') cs = map (\<lambda>c'. h ! c') cs"
    using Cons.prems(3) by (auto simp: nth_append)
  have u: "[length h..<Suc (length h + length cs)] =
      length h # [Suc (length h)..<Suc (length h + length cs)]"
    by (rule upt_conv_Cons) simp
  from Cons.IH [OF d i l] obtain memo' where
    "deepcopy_columns (h @ [h ! c]) ((c, length h) # memo) cs =
       ((h @ [h ! c]) @ map (\<lambda>c'. (h @ [h ! c]) ! c') cs, memo',
        [length (h @ [h ! c])..<length (h @ [h ! c]) + length cs])"
    by blast
  then show ?case
    by (simp add: n new_def m u del: upt_Suc upt_Suc_append)
qed


lemma is_ints_iff: "is_ints x \<longleftrightarrow> (\<exists>xs. x = ListOfInts xs)"
  by (cases x) simp_all

lemma is_locs_iff: "is_locs x \<longleftrightarrow> (\<exists>ls. x = ListOfLocs ls)"
  by (cases x) simp_all

lemma valid_instanceE:
  assumes "valid_instance h r"
  obtains b a l cs ls where "r < length h" and "h ! r = Instance b a l"
    and "b < length h" and "l < length h" and "h ! b = ListOfLists cs" and "distinct cs"
    and "\<forall>c\<in>set cs. c < length h \<and> (\<exists>xs. h ! c = ListOfInts xs)"
    and "h ! l = ListOfLocs ls"
proof -
  from assms obtain b a l where r: "r < length h" "h ! r = Instance b a l"
    and bl: "b < length h" "l < length h" "is_locs (h ! l)"
    and c: "case h ! b of ListOfLists cs \<Rightarrow>
              distinct cs \<and> list_all (\<lambda>c. c < length h \<and> is_ints (h ! c)) cs | _ \<Rightarrow> False"
    unfolding valid_instance_def by (cases "h ! r") simp_all
  from c obtain cs where cs: "h ! b = ListOfLists cs" "distinct cs"
    "list_all (\<lambda>c. c < length h \<and> is_ints (h ! c)) cs"
    by (cases "h ! b") simp_all
  from bl(3) obtain ls where "h ! l = ListOfLocs ls"
    by (auto simp: is_locs_iff)
  moreover from cs(3) have "\<forall>c\<in>set cs. c < length h \<and> (\<exists>xs. h ! c = ListOfInts xs)"
    by (simp add: list_all_iff is_ints_iff)
  ultimately show ?thesis
    using r bl cs that by blast
qed

lemma valid_instanceI:
  assumes "r < length h" and "h ! r = Instance b a l"
    and "b < length h" and "l < length h" and "h ! b = ListOfLists cs" and "distinct cs"
    and "\<forall>c\<in>set cs. c < length h \<and> (\<exists>xs. h ! c = ListOfInts xs)"
    and "h ! l = ListOfLocs ls"
  shows "valid_instance h r"
  using assms unfolding valid_instance_def list_all_iff
  by auto

lemma state_of_parts:
  assumes "h ! r = Instance b a l" and "h ! b = ListOfLists cs" and "h ! l = ListOfLocs ls"
  shows "state_of h r = \<lparr>board = map (the_ints h) cs, active_player = a, player_locations = ls\<rparr>"
  using assms by (simp add: state_of_def the_columns_def the_locs_def)

text \<open>Objects that are left as they were give the same state.\<close>

lemma state_of_extend:
  assumes "valid_instance h r" and "take (length h) h' = h"
  shows "state_of h' r = state_of h r \<and> valid_instance h' r"
proof -
  have "length (take (length h) h') = length h"
    using assms(2) by simp
  then have len: "length h \<le> length h'"
    by simp
  have same: "h' ! i = h ! i" if "i < length h" for i
    using that assms(2) by (metis nth_take)
  from assms(1) obtain b a l cs ls where p: "r < length h" "h ! r = Instance b a l"
    "b < length h" "l < length h" "h ! b = ListOfLists cs" "distinct cs"
    "\<forall>c\<in>set cs. c < length h \<and> (\<exists>xs. h ! c = ListOfInts xs)" "h ! l = ListOfLocs ls"
    by (rule valid_instanceE)
  have ints: "map (the_ints h') cs = map (the_ints h) cs"
    using p(7) same by (auto simp: the_ints_def)
  have "state_of h' r = state_of h r"
    using p same by (simp add: state_of_parts [of _ _ b a l cs ls] ints)
  moreover have "valid_instance h' r"
    using p same len by (intro valid_instanceI [of _ _ b a l cs ls]) auto
  ultimately show ?thesis
    by simp
qed

lemma deepcopy_valid:
  assumes "r < length h" and "h ! r = Instance b a l"
    and "b < length h" and "l < length h" and "h ! b = ListOfLists cs" and "distinct cs"
    and "\<forall>c\<in>set cs. c < length h \<and> (\<exists>xs. h ! c = ListOfInts xs)"
    and "h ! l = ListOfLocs ls"
  shows "deepcopy h r =
     (h @ map (\<lambda>c. h ! c) cs @
        [ListOfLists [length h..<length h + length cs], ListOfLocs ls,
         Instance (length h + length cs) a (Suc (length h + length cs))],
      Suc (Suc (length h + length cs)))"
proof -
  have "\<forall>c\<in>set cs. c < length h"
    using assms(7) by blast
  with assms(6) obtain memo' where
    "deepcopy_columns h [] cs = (h @ map (\<lambda>c. h ! c) cs, memo', [length h..<length h + length cs])"
    using deepcopy_columns_fresh [of cs "[]" h] by auto
  then show ?thesis
    using assms by (simp add: deepcopy_def the_columns_def new_def nth_append)
qed


lemma forecast_move_h_legal:
  assumes v: "valid_instance h self" and w: "wf_state (state_of h self)"
    and m: "m \<in> set (get_legal_moves (state_of h self))"
  shows "\<exists>h' r'. forecast_move_h h self m = (Inr r', h') \<and> take (length h) h' = h \<and>
           length h \<le> r' \<and> valid_instance h' r' \<and>
           forecast_move (state_of h self) m = Inr (state_of h' r')"
proof -
  from v obtain b a l cs ls where p: "self < length h" "h ! self = Instance b a l"
    "b < length h" "l < length h" "h ! b = ListOfLists cs" "distinct cs"
    "\<forall>c\<in>set cs. c < length h \<and> (\<exists>xs. h ! c = ListOfInts xs)" "h ! l = ListOfLocs ls"
    by (rule valid_instanceE)
  define n k i j where "n = length h" and "k = length cs" and "i = nat (fst m)" and "j = nat (snd m)"
  define xs where "xs = the_ints h (cs ! i)"
  have s: "state_of h self =
      \<lparr>board = map (the_ints h) cs, active_player = a, player_locations = ls\<rparr>"
    using p by (simp add: state_of_parts)
  have "in_board m"
    using legal_moves_open [OF w m] by (simp add: is_open_def)
  moreover have "k = nat xlim"
    using w by (simp add: wf_state_def s k_def)
  ultimately have ik: "i < k"
    by (simp add: in_board_def i_def)
  define H1 where "H1 = h @ map (\<lambda>c. h ! c) cs @
      [ListOfLists [n..<n + k], ListOfLocs ls, Instance (n + k) a (Suc (n + k))]"
  define nb where "nb = Suc (Suc (n + k))"
  have dc: "deepcopy h self = (H1, nb)"
    using deepcopy_valid [OF p] by (simp add: H1_def nb_def n_def k_def)
  have H1_old: "H1 ! q = h ! q" if "q < n" for q
    using that by (simp add: H1_def n_def nth_append)
  have H1_col: "H1 ! (n + q) = h ! (cs ! q)" if "q < k" for q
    using that by (simp add: H1_def n_def k_def nth_append)
  have H1_b: "H1 ! (n + k) = ListOfLists [n..<n + k]"
    by (simp add: H1_def n_def k_def nth_append)
  have H1_l: "H1 ! Suc (n + k) = ListOfLocs ls"
    by (simp add: H1_def n_def k_def nth_append)
  have H1_nb: "H1 ! nb = Instance (n + k) a (Suc (n + k))"
    by (simp add: H1_def nb_def n_def k_def nth_append)
  have H1_len: "length H1 = n + k + 3"
    by (simp add: H1_def n_def k_def)
  define H2 where "H2 = H1[n + i := ListOfInts (xs[j := 1])]"
  have c2: "set_cell H1 nb (fst m) (snd m) 1 = H2"
    using ik by (simp add: set_cell_def H1_nb the_columns_def H1_b the_ints_def H1_col H2_def
        xs_def i_def j_def)
  have t2: "take n H2 = h"
    by (simp add: H2_def H1_def n_def)
  have H2_len: "length H2 = n + k + 3"
    by (simp add: H2_def H1_len)
  have s2: "state_of H2 self = state_of h self"
    using state_of_extend [OF v, of H2] t2 by (simp add: n_def)
  have H2_l: "H2 ! Suc (n + k) = ListOfLocs ls"
    using ik by (simp add: H2_def H1_l)
  have "nb \<noteq> n + i"
    using ik by (simp add: nb_def)
  then have H2_nb: "H2 ! nb = Instance (n + k) a (Suc (n + k))"
    by (simp add: H2_def H1_nb)
  define H3 where "H3 = H2[Suc (n + k) := ListOfLocs (ls[nat a := Some m])]"
  have c3: "set_location H2 nb (active_player (state_of H2 self)) m = H3"
    by (simp add: set_location_def H2_nb the_locs_def H2_l H3_def s2 s)
  have "nb \<noteq> Suc (n + k)"
    by (simp add: nb_def)
  then have H3_nb: "H3 ! nb = Instance (n + k) a (Suc (n + k))"
    by (simp add: H3_def H2_nb)
  have H3_b: "H3 ! (n + k) = ListOfLists [n..<n + k]"
    using ik by (simp add: H3_def H2_def H1_b)
  have H3_l: "H3 ! Suc (n + k) = ListOfLocs (ls[nat a := Some m])"
    by (simp add: H3_def H2_len)
  have H3_col: "H3 ! (n + q) = (if q = i then ListOfInts (xs[j := 1]) else h ! (cs ! q))"
    if "q < k" for q
    using that by (simp add: H3_def H2_def H1_len H1_col)
  have a3: "active_player (state_of H3 nb) = a"
    by (simp add: state_of_def H3_nb)
  define H4 where "H4 = H3[nb := Instance (n + k) (a XOR 1) (Suc (n + k))]"
  have c4: "set_active_player H3 nb (active_player (state_of H3 nb) XOR 1) = H4"
    by (simp add: set_active_player_def H3_nb a3 H4_def)
  have H4_len: "length H4 = n + k + 3"
    by (simp add: H4_def H3_def H2_len)
  have H4_nb: "H4 ! nb = Instance (n + k) (a XOR 1) (Suc (n + k))"
    by (simp add: H4_def H3_def H2_len nb_def)
  have H4_b: "H4 ! (n + k) = ListOfLists [n..<n + k]"
    by (simp add: H4_def H3_b nb_def)
  have H4_l: "H4 ! Suc (n + k) = ListOfLocs (ls[nat a := Some m])"
    by (simp add: H4_def H3_l nb_def)
  have H4_col: "H4 ! (n + q) = (if q = i then ListOfInts (xs[j := 1]) else h ! (cs ! q))"
    if "q < k" for q
    using that by (simp add: H4_def H3_col nb_def)
  have t4: "take n H4 = h"
    by (simp add: H4_def H3_def H2_def H1_def n_def nb_def)
  have run: "forecast_move_h h self m = (Inr nb, H4)"
    using m by (simp add: forecast_move_h_def dc c2 c3 c4)
  have ints: "map (the_ints H4) [n..<n + k] = (map (the_ints h) cs)[i := xs[j := 1]]"
  proof (rule nth_equalityI)
    show "length (map (the_ints H4) [n..<n + k]) = length ((map (the_ints h) cs)[i := xs[j := 1]])"
      by (simp add: k_def)
  next
    fix q
    assume "q < length (map (the_ints H4) [n..<n + k])"
    then have q: "q < k"
      by simp
    then show "map (the_ints H4) [n..<n + k] ! q = (map (the_ints h) cs)[i := xs[j := 1]] ! q"
      by (simp add: the_ints_def H4_col k_def nth_list_update)
  qed
  have s4: "state_of H4 nb =
      \<lparr>board = (map (the_ints h) cs)[i := xs[j := 1]], active_player = a XOR 1,
       player_locations = ls[nat a := Some m]\<rparr>"
    by (simp add: state_of_parts [OF H4_nb H4_b H4_l] ints)
  have m': "m \<in> set (get_legal_moves
      \<lparr>board = map (the_ints h) cs, active_player = a, player_locations = ls\<rparr>)"
    using m by (simp add: s)
  have f: "forecast_move (state_of h self) m = Inr (state_of H4 nb)"
    using ik by (simp add: s forecast_move_legal [OF m'] s4 i_def j_def xs_def k_def)
  have v4: "valid_instance H4 nb"
  proof (rule valid_instanceI [OF _ H4_nb _ _ H4_b _ _ H4_l])
    show "nb < length H4" "n + k < length H4" "Suc (n + k) < length H4"
      by (simp_all add: H4_len nb_def)
    show "distinct [n..<n + k]"
      by simp
    show "\<forall>c\<in>set [n..<n + k]. c < length H4 \<and> (\<exists>xs. H4 ! c = ListOfInts xs)"
    proof
      fix c
      assume "c \<in> set [n..<n + k]"
      then obtain q where q: "c = n + q" "q < k"
        by (auto simp: le_iff_add)
      then have "cs ! q \<in> set cs"
        by (simp add: k_def)
      with p(7) obtain ys where "h ! (cs ! q) = ListOfInts ys"
        by blast
      with q show "c < length H4 \<and> (\<exists>xs. H4 ! c = ListOfInts xs)"
        by (simp add: H4_len H4_col)
    qed
  qed
  from run t4 v4 f show ?thesis
    by (auto simp: n_def nb_def)
qed

lemma GameState_init_h_value:
  "GameState_init_h h =
     (h @ [ListOfInts [0, 0], ListOfInts [0, 0], ListOfInts [0, 1],
           ListOfLists [length h, Suc (length h), Suc (Suc (length h))],
           ListOfLocs [None, None],
           Instance (Suc (Suc (Suc (length h)))) 0 (Suc (Suc (Suc (Suc (length h)))))],
      Suc (Suc (Suc (Suc (Suc (length h))))))"
  by (simp add: GameState_init_h_def new_def xlim_def ylim_def upto.simps the_ints_def
      nth_append eval_nat_numeral list_update_append)

lemma GameState_init_h_valid:
  "case GameState_init_h h of
     (h', r) \<Rightarrow> valid_instance h' r \<and> state_of h' r = GameState_init \<and> take (length h) h' = h"
  by (simp add: GameState_init_h_value GameState_init_value valid_instance_def state_of_def
      the_columns_def the_ints_def the_locs_def nth_append)

lemma forecast_move_h_illegal:
  "m \<notin> set (get_legal_moves (state_of h self)) \<Longrightarrow>
   forecast_move_h h self m = (Inl (RuntimeError ''Attempted forecast of illegal move''), h)"
  by (simp add: forecast_move_h_def)

lemma forecast_move_h_Inl_iff:
  assumes "valid_instance h self" and "wf_state (state_of h self)"
  shows "(\<exists>e. fst (forecast_move_h h self m) = Inl e) \<longleftrightarrow>
         m \<notin> set (get_legal_moves (state_of h self))"
proof (cases "m \<in> set (get_legal_moves (state_of h self))")
  case True
  with forecast_move_h_legal [OF assms True] show ?thesis
    by auto
next
  case False
  then show ?thesis
    by (simp add: forecast_move_h_illegal)
qed

lemma init_store:
  "valid_instance
     [ListOfInts [0, 0], ListOfInts [0, 0], ListOfInts [0, 1], ListOfLists [0, 1, 2],
      ListOfLocs [None, None], Instance 3 0 4] 5 \<and>
   state_of
     [ListOfInts [0, 0], ListOfInts [0, 0], ListOfInts [0, 1], ListOfLists [0, 1, 2],
      ListOfLocs [None, None], Instance 3 0 4] 5 = GameState_init"
  using GameState_init_h_valid [of "[]"]
  by (simp add: GameState_init_h_value eval_nat_numeral)

text \<open>
  Claim C4. Let \<open>self\<close> be an instance as the class builds it, standing for the state
  \<open>s\<close>, and \<open>m\<close> a legal move of \<open>s\<close>. \<^verbatim>\<open>forecast_move\<close> returns the reference \<open>r'\<close> of a new
  instance, which stands for a state \<open>s'\<close> (the value of \<open>forecast_move s m\<close>). The store
  before the call is the beginning of the store after it: no object that existed has
  changed, \<open>self\<close> still stands for \<open>s\<close>, and its legal moves are the same before and
  after the call. The board of \<open>s'\<close> is the board of \<open>s\<close> with the cell \<open>m\<close>, open in \<open>s\<close>,
  set to 1 and every other cell as it was: the blocked cells of \<open>s'\<close> are those of \<open>s\<close>
  and \<open>m\<close>, one more than before. The slot of the player who moved holds \<open>m\<close>, the slot
  of the other player is as in \<open>s\<close>, and the active player is the other player.
\<close>

theorem forecast_move_effect:
  assumes "valid_instance h self" and "state_of h self = s" and "wf_state s"
    and "m \<in> set (get_legal_moves s)"
  shows "\<exists>h' r' s'. forecast_move_h h self m = (Inr r', h') \<and> state_of h' r' = s' \<and>
           forecast_move s m = Inr s' \<and>
           take (length h) h' = h \<and> state_of h' self = s \<and>
           get_legal_moves (state_of h' self) = get_legal_moves s \<and>
           length h \<le> r' \<and> valid_instance h' r' \<and> wf_state s' \<and>
           is_open (board s) m \<and>
           (\<forall>c. in_board c \<longrightarrow>
              board s' ! nat (fst c) ! nat (snd c) =
                (if c = m then 1 else board s ! nat (fst c) ! nat (snd c))) \<and>
           {c. blocked (board s') c} = insert m {c. blocked (board s) c} \<and>
           card {c. blocked (board s') c} = Suc (card {c. blocked (board s) c}) \<and>
           player_locations s' ! nat (active_player s) = Some m \<and>
           player_locations s' ! nat (1 - active_player s) =
             player_locations s ! nat (1 - active_player s) \<and>
           active_player s' = 1 - active_player s"
proof -
  have w: "wf_state (state_of h self)" and m: "m \<in> set (get_legal_moves (state_of h self))"
    using assms by simp_all
  from forecast_move_h_legal [OF assms(1) w m] obtain h' r'
    where run: "forecast_move_h h self m = (Inr r', h')" and t: "take (length h) h' = h"
      and r': "length h \<le> r'" and v': "valid_instance h' r'"
      and f: "forecast_move s m = Inr (state_of h' r')"
    using assms(2) by auto
  have same: "state_of h' self = s"
    using state_of_extend [OF assms(1) t] assms(2) by simp
  have same': "get_legal_moves (state_of h' self) = get_legal_moves s"
    by (simp add: same)
  from forecast_move_value [OF assms(3) f] run t r' v' f same same' show ?thesis
    by blast
qed

theorem forecast_move_effect_witness:
  "GameState_init_h [] =
     ([ListOfInts [0, 0], ListOfInts [0, 0], ListOfInts [0, 1], ListOfLists [0, 1, 2],
       ListOfLocs [None, None], Instance 3 0 4], 5) \<and>
   (0, 0) \<in> set (get_legal_moves GameState_init) \<and>
   forecast_move_h
     [ListOfInts [0, 0], ListOfInts [0, 0], ListOfInts [0, 1], ListOfLists [0, 1, 2],
      ListOfLocs [None, None], Instance 3 0 4] 5 (0, 0) =
     (Inr 11,
      [ListOfInts [0, 0], ListOfInts [0, 0], ListOfInts [0, 1], ListOfLists [0, 1, 2],
       ListOfLocs [None, None], Instance 3 0 4,
       ListOfInts [1, 0], ListOfInts [0, 0], ListOfInts [0, 1], ListOfLists [6, 7, 8],
       ListOfLocs [Some (0, 0), None], Instance 9 1 10]) \<and>
   (\<exists>h' r' s'. forecast_move_h
       [ListOfInts [0, 0], ListOfInts [0, 0], ListOfInts [0, 1], ListOfLists [0, 1, 2],
        ListOfLocs [None, None], Instance 3 0 4] 5 (0, 0) = (Inr r', h') \<and>
     state_of h' r' = s' \<and> state_of h' 5 = GameState_init \<and>
     card {c. blocked (board s') c} = Suc (card {c. blocked (board GameState_init) c}) \<and>
     active_player s' = 1 - active_player GameState_init)"
proof -
  let ?h = "[ListOfInts [0, 0], ListOfInts [0, 0], ListOfInts [0, 1], ListOfLists [0, 1, 2],
      ListOfLocs [None, None], Instance 3 0 4]"
  have i: "GameState_init_h [] = (?h, 5)"
    by (simp add: GameState_init_h_value eval_nat_numeral)
  have m0: "(0, 0) \<in> set (get_legal_moves GameState_init)"
    by (simp add: get_legal_moves_init)
  have run: "forecast_move_h ?h 5 (0, 0) =
     (Inr 11,
      [ListOfInts [0, 0], ListOfInts [0, 0], ListOfInts [0, 1], ListOfLists [0, 1, 2],
       ListOfLocs [None, None], Instance 3 0 4,
       ListOfInts [1, 0], ListOfInts [0, 0], ListOfInts [0, 1], ListOfLists [6, 7, 8],
       ListOfLocs [Some (0, 0), None], Instance 9 1 10])"
    by code_simp
  from forecast_move_effect [OF init_store [THEN conjunct1] init_store [THEN conjunct2]
      wf_state_init m0]
  have "\<exists>h' r' s'. forecast_move_h ?h 5 (0, 0) = (Inr r', h') \<and>
     state_of h' r' = s' \<and> state_of h' 5 = GameState_init \<and>
     card {c. blocked (board s') c} = Suc (card {c. blocked (board GameState_init) c}) \<and>
     active_player s' = 1 - active_player GameState_init"
    by blast
  with i m0 run show ?thesis
    by blast
qed

text \<open>
  Claim C5. \<^verbatim>\<open>forecast_move\<close> fails exactly when the move is not a member of the legal
  moves, and then with the \<^verbatim>\<open>RuntimeError\<close> of the source (the illegal-move error of
  the specification) and with the store as it was before the call; this covers every
  coordinate off the board and every blocked cell of the board. The failure is the
  result of the call: nothing in the source catches it.
\<close>

theorem forecast_move_error:
  assumes "valid_instance h self" and "state_of h self = s" and "wf_state s"
  shows "((\<exists>e. fst (forecast_move_h h self m) = Inl e) \<longleftrightarrow> m \<notin> set (get_legal_moves s)) \<and>
         (m \<notin> set (get_legal_moves s) \<longrightarrow>
            forecast_move_h h self m =
              (Inl (RuntimeError ''Attempted forecast of illegal move''), h)) \<and>
         (\<not> in_board m \<longrightarrow> m \<notin> set (get_legal_moves s)) \<and>
         (blocked (board s) m \<longrightarrow> m \<notin> set (get_legal_moves s))"
proof (intro conjI impI)
  show "(\<exists>e. fst (forecast_move_h h self m) = Inl e) \<longleftrightarrow> m \<notin> set (get_legal_moves s)"
    using forecast_move_h_Inl_iff [of h self m] assms by simp
next
  assume "m \<notin> set (get_legal_moves s)"
  then show "forecast_move_h h self m =
      (Inl (RuntimeError ''Attempted forecast of illegal move''), h)"
    using assms(2) by (simp add: forecast_move_h_illegal)
next
  assume "\<not> in_board m"
  then show "m \<notin> set (get_legal_moves s)"
    using legal_moves_open [OF assms(3), of m] by (auto simp: is_open_def)
next
  assume "blocked (board s) m"
  then show "m \<notin> set (get_legal_moves s)"
    using legal_moves_open [OF assms(3), of m] by (auto simp: is_open_def blocked_def)
qed

theorem forecast_move_error_witness:
  "blocked (board GameState_init) (2, 1) \<and>
   forecast_move_h
     [ListOfInts [0, 0], ListOfInts [0, 0], ListOfInts [0, 1], ListOfLists [0, 1, 2],
      ListOfLocs [None, None], Instance 3 0 4] 5 (2, 1) =
     (Inl (RuntimeError ''Attempted forecast of illegal move''),
      [ListOfInts [0, 0], ListOfInts [0, 0], ListOfInts [0, 1], ListOfLists [0, 1, 2],
       ListOfLocs [None, None], Instance 3 0 4]) \<and>
   \<not> in_board (3, 0) \<and>
   forecast_move_h
     [ListOfInts [0, 0], ListOfInts [0, 0], ListOfInts [0, 1], ListOfLists [0, 1, 2],
      ListOfLocs [None, None], Instance 3 0 4] 5 (3, 0) =
     (Inl (RuntimeError ''Attempted forecast of illegal move''),
      [ListOfInts [0, 0], ListOfInts [0, 0], ListOfInts [0, 1], ListOfLists [0, 1, 2],
       ListOfLocs [None, None], Instance 3 0 4]) \<and>
   (0, 0) \<in> set (get_legal_moves GameState_init) \<and>
   \<not> (\<exists>e. fst (forecast_move_h
     [ListOfInts [0, 0], ListOfInts [0, 0], ListOfInts [0, 1], ListOfLists [0, 1, 2],
      ListOfLocs [None, None], Instance 3 0 4] 5 (0, 0)) = Inl e)"
proof -
  let ?h = "[ListOfInts [0, 0], ListOfInts [0, 0], ListOfInts [0, 1], ListOfLists [0, 1, 2],
      ListOfLocs [None, None], Instance 3 0 4]"
  note spec = forecast_move_error [OF init_store [THEN conjunct1] init_store [THEN conjunct2]
      wf_state_init]
  have b: "blocked (board GameState_init) (2, 1)"
    by (simp add: blocked_def in_board_def GameState_init_value xlim_def ylim_def)
  have o: "\<not> in_board (3, 0)"
    by (simp add: in_board_def xlim_def)
  have m0: "(0, 0) \<in> set (get_legal_moves GameState_init)"
    by (simp add: get_legal_moves_init)
  from b o m0 spec [of "(2, 1)"] spec [of "(3, 0)"] spec [of "(0, 0)"]
  show ?thesis
    by blast
qed

section \<open>Lines of play\<close>

lemma wf_state_play:
  "wf_state s \<Longrightarrow> play s ms = Inr s' \<Longrightarrow> wf_state s'"
proof (induction ms arbitrary: s)
  case Nil
  then show ?case by simp
next
  case (Cons m ms)
  then show ?case
    by (auto split: sum.splits dest: wf_state_forecast_move)
qed

lemma play_append:
  "play s (ms @ ms') = (case play s ms of Inl e \<Rightarrow> Inl e | Inr s' \<Rightarrow> play s' ms')"
  by (induction ms arbitrary: s) (auto split: sum.splits)

lemma blocked_play_mono:
  "wf_state s \<Longrightarrow> play s ms = Inr s' \<Longrightarrow> blocked (board s) c \<Longrightarrow> blocked (board s') c"
proof (induction ms arbitrary: s)
  case Nil
  then show ?case by simp
next
  case (Cons m ms)
  from Cons.prems(2) obtain s1 where f: "forecast_move s m = Inr s1" and p: "play s1 ms = Inr s'"
    by (auto split: sum.splits)
  have "wf_state s1"
    using Cons.prems(1) f by (rule wf_state_forecast_move)
  moreover have "blocked (board s1) c"
    using Cons.prems(1,3) f by (simp add: blocked_forecast_move)
  ultimately show ?case
    using p Cons.IH by blast
qed

lemma blocked_play_moves:
  "wf_state s \<Longrightarrow> play s ms = Inr s' \<Longrightarrow> m \<in> set ms \<Longrightarrow> blocked (board s') m"
proof (induction ms arbitrary: s)
  case Nil
  then show ?case by simp
next
  case (Cons a ms)
  from Cons.prems(2) obtain s1 where f: "forecast_move s a = Inr s1" and p: "play s1 ms = Inr s'"
    by (auto split: sum.splits)
  have w1: "wf_state s1"
    using Cons.prems(1) f by (rule wf_state_forecast_move)
  show ?case
  proof (cases "m = a")
    case True
    then have "blocked (board s1) m"
      using Cons.prems(1) f by (simp add: blocked_forecast_move)
    then show ?thesis
      using w1 p by (rule blocked_play_mono [rotated 2])
  next
    case False
    with Cons.prems(3) have "m \<in> set ms" by simp
    with w1 p show ?thesis by (rule Cons.IH)
  qed
qed

lemma locations_blocked_forecast_move:
  assumes "wf_state s" and "locations_blocked s" and "forecast_move s m = Inr s'"
  shows "locations_blocked s'"
proof -
  have bl: "blocked (board s') c = (c = m \<or> blocked (board s) c)" for c
    using assms(1,3) by (rule blocked_forecast_move)
  from assms(3) have "player_locations s' = (player_locations s)[nat (active_player s) := Some m]"
    by (simp add: forecast_move_Inr_iff)
  moreover have "list_all (\<lambda>l. case l of None \<Rightarrow> True | Some c \<Rightarrow> blocked (board s') c)
      (player_locations s)"
    using assms(2) by (auto simp: locations_blocked_def list_all_iff bl split: option.splits)
  ultimately show ?thesis
    by (simp add: locations_blocked_def list_all_update bl)
qed

lemma locations_blocked_play:
  "wf_state s \<Longrightarrow> locations_blocked s \<Longrightarrow> play s ms = Inr s' \<Longrightarrow> locations_blocked s'"
proof (induction ms arbitrary: s)
  case Nil
  then show ?case by simp
next
  case (Cons m ms)
  from Cons.prems(3) obtain s1 where f: "forecast_move s m = Inr s1" and p: "play s1 ms = Inr s'"
    by (auto split: sum.splits)
  have "wf_state s1"
    using Cons.prems(1) f by (rule wf_state_forecast_move)
  moreover have "locations_blocked s1"
    using Cons.prems(1,2) f by (rule locations_blocked_forecast_move)
  ultimately show ?case
    using p by (rule Cons.IH)
qed

text \<open>
  Claim C7. In every state reached from the initial state by a sequence \<open>ms\<close> of
  \<^verbatim>\<open>forecast_move\<close> applications: each location slot that holds a cell holds a blocked
  cell; every move of the sequence, that is every cell a player has occupied on this
  line of play, is blocked; and every cell blocked in the state is still blocked in
  every state reached from it, so no cell goes from blocked back to open.
\<close>

theorem occupancy_invariant:
  assumes "play GameState_init ms = Inr s"
  shows "wf_state s \<and>
         (\<forall>p loc. p < length (player_locations s) \<longrightarrow> player_locations s ! p = Some loc \<longrightarrow>
            blocked (board s) loc) \<and>
         (\<forall>m \<in> set ms. blocked (board s) m) \<and>
         (\<forall>ms' s' c. play s ms' = Inr s' \<longrightarrow> blocked (board s) c \<longrightarrow> blocked (board s') c)"
proof (intro conjI allI impI ballI)
  show w: "wf_state s"
    using wf_state_init assms by (rule wf_state_play)
  have "locations_blocked GameState_init"
    by (simp add: locations_blocked_def GameState_init_value)
  with wf_state_init have lb: "locations_blocked s"
    using assms by (rule locations_blocked_play)
  show "blocked (board s) loc"
    if "p < length (player_locations s)" and "player_locations s ! p = Some loc" for p loc
  proof -
    from that have "Some loc \<in> set (player_locations s)"
      by (metis nth_mem)
    with lb show ?thesis
      by (auto simp: locations_blocked_def list_all_iff)
  qed
  show "blocked (board s) m" if "m \<in> set ms" for m
    using wf_state_init assms that by (rule blocked_play_moves)
  show "blocked (board s') c" if "play s ms' = Inr s'" and "blocked (board s) c" for ms' s' c
    using w that by (rule blocked_play_mono)
qed

lemma get_legal_moves_after_two:
  "get_legal_moves \<lparr>board = [[1, 0], [1, 0], [0, 1]], active_player = 0,
          player_locations = [Some (0, 0), Some (1, 0)]\<rparr> = [(0, 1), (1, 1)]"
  by (subst get_legal_moves_placed [of _ "(0, 0)"])
     (simp_all add: rays_def ray_moves_cells ray_step_def is_open_def in_board_def
        xlim_def ylim_def)

lemma play_two:
  "play GameState_init [(0, 0), (1, 0)] =
     Inr \<lparr>board = [[1, 0], [1, 0], [0, 1]], active_player = 0,
          player_locations = [Some (0, 0), Some (1, 0)]\<rparr>"
  by (simp add: forecast_move_init_00 forecast_move_legal get_legal_moves_after_00)

theorem occupancy_invariant_witness:
  "play GameState_init [(0, 0), (1, 0)] =
     Inr \<lparr>board = [[1, 0], [1, 0], [0, 1]], active_player = 0,
          player_locations = [Some (0, 0), Some (1, 0)]\<rparr> \<and>
   blocked [[1, 0], [1, 0], [0, 1]] (0, 0) \<and>
   blocked [[1, 0], [1, 0], [0, 1]] (1, 0) \<and>
   blocked [[1, 0], [1, 0], [0, 1]] (2, 1) \<and>
   play \<lparr>board = [[1, 0], [1, 0], [0, 1]], active_player = 0,
          player_locations = [Some (0, 0), Some (1, 0)]\<rparr> [(0, 1)] =
     Inr \<lparr>board = [[1, 1], [1, 0], [0, 1]], active_player = 1,
          player_locations = [Some (0, 1), Some (1, 0)]\<rparr> \<and>
   blocked [[1, 1], [1, 0], [0, 1]] (2, 1)"
proof -
  let ?s = "\<lparr>board = [[1, 0], [1, 0], [0, 1]], active_player = 0,
          player_locations = [Some (0, 0), Some (1, 0)]\<rparr>"
  let ?s' = "\<lparr>board = [[1, 1], [1, 0], [0, 1]], active_player = 1,
          player_locations = [Some (0, 1), Some (1, 0)]\<rparr>"
  have p': "play ?s [(0, 1)] = Inr ?s'"
    by (simp add: forecast_move_legal get_legal_moves_after_two)
  have b: "blocked (board ?s) (2, 1)"
    by (simp add: blocked_def in_board_def xlim_def ylim_def)
  from occupancy_invariant [OF play_two] p' b
  have "blocked (board ?s') (2, 1)"
    by blast
  moreover from occupancy_invariant [OF play_two]
  have "blocked (board ?s) (0, 0)" and "blocked (board ?s) (1, 0)"
    by simp_all
  ultimately show ?thesis
    using play_two p' b by simp
qed

section \<open>The rays do not overlap\<close>

lemma distinct_concat_takeWhile:
  "distinct (concat xss) \<Longrightarrow> distinct (concat (map (takeWhile P) xss))"
proof (induction xss)
  case Nil
  then show ?case by simp
next
  case (Cons xs xss)
  have "set (takeWhile P xs) \<subseteq> set xs"
    by (auto dest: set_takeWhileD)
  moreover have "set (concat (map (takeWhile P) xss)) \<subseteq> set (concat xss)"
    by (auto dest: set_takeWhileD)
  ultimately show ?case
    using Cons by (auto simp: distinct_takeWhile)
qed

lemma ray_moves_subset:
  "set (ray_moves b loc d) \<subseteq> {ray_step loc d 1, ray_step loc d 2}"
  by (auto simp: ray_moves_cells dest: set_takeWhileD)

lemma ray_cells_distinct:
  "distinct (concat (map (\<lambda>d. [ray_step loc d 1, ray_step loc d 2]) rays))"
  by (simp add: rays_def ray_step_def)

lemma ray_cells_not_origin:
  "loc \<notin> set (concat (map (\<lambda>d. [ray_step loc d 1, ray_step loc d 2]) rays))"
  by (simp add: rays_def ray_step_def prod_eq_iff)

lemma concat_ray_moves:
  "concat (map (ray_moves b loc) rs) =
     concat (map (takeWhile (is_open b)) (map (\<lambda>d. [ray_step loc d 1, ray_step loc d 2]) rs))"
proof -
  have "ray_moves b loc = (\<lambda>d. takeWhile (is_open b) [ray_step loc d 1, ray_step loc d 2])"
    by (rule ext) (rule ray_moves_cells)
  then show ?thesis
    by (simp only: map_map comp_def)
qed

lemma distinct_ray_moves: "distinct (concat (map (ray_moves b loc) rays))"
  unfolding concat_ray_moves by (rule distinct_concat_takeWhile) (rule ray_cells_distinct)

lemma origin_not_in_ray_moves: "loc \<notin> set (concat (map (ray_moves b loc) rays))"
proof -
  have "set (concat (map (ray_moves b loc) rays)) \<subseteq>
      set (concat (map (\<lambda>d. [ray_step loc d 1, ray_step loc d 2]) rays))"
    unfolding concat_ray_moves by (auto dest: set_takeWhileD)
  then show ?thesis
    using ray_cells_not_origin by blast
qed

lemma ray_moves_disjoint:
  assumes "d \<in> set rays" and "d' \<in> set rays" and "d \<noteq> d'"
  shows "set (ray_moves b loc d) \<inter> set (ray_moves b loc d') = {}"
proof -
  have "{ray_step loc d 1, ray_step loc d 2} \<inter> {ray_step loc d' 1, ray_step loc d' 2} = {}"
    using assms by (auto simp: rays_def ray_step_def)
  then show ?thesis
    using ray_moves_subset [of b loc d] ray_moves_subset [of b loc d'] by blast
qed

text \<open>
  Claim C10. In a state the class builds whose active player is at \<open>loc\<close>, the legal
  moves hold no coordinate twice and never hold \<open>loc\<close>: the moves of two different rays
  are disjoint, and every move of a ray is at least one step from \<open>loc\<close>.
\<close>

theorem legal_moves_distinct:
  assumes "wf_state s" and "player_locations s ! nat (active_player s) = Some loc"
  shows "distinct (get_legal_moves s) \<and> loc \<notin> set (get_legal_moves s) \<and>
         (\<forall>d \<in> set rays. \<forall>d' \<in> set rays. d \<noteq> d' \<longrightarrow>
            set (ray_moves (board s) loc d) \<inter> set (ray_moves (board s) loc d') = {}) \<and>
         (\<forall>d \<in> set rays. \<forall>c \<in> set (ray_moves (board s) loc d).
            \<exists>k\<ge>1. c = ray_step loc d k)"
proof -
  have "in_board loc"
    using assms by (rule wf_state_active_loc)
  with assms(2) have g: "get_legal_moves s = concat (map (ray_moves (board s) loc) rays)"
    by (rule get_legal_moves_placed)
  have "\<exists>k\<ge>1. c = ray_step loc d k" if "c \<in> set (ray_moves (board s) loc d)" for c d
  proof -
    from that ray_moves_subset [of "board s" loc d]
    have "c = ray_step loc d 1 \<or> c = ray_step loc d 2"
      by auto
    then show ?thesis
    proof
      assume "c = ray_step loc d 1"
      then show ?thesis by (intro exI [of _ 1]) simp
    next
      assume "c = ray_step loc d 2"
      then show ?thesis by (intro exI [of _ 2]) simp
    qed
  qed
  then show ?thesis
    unfolding g using distinct_ray_moves origin_not_in_ray_moves ray_moves_disjoint
    by blast
qed

theorem legal_moves_distinct_witness:
  "wf_state \<lparr>board = [[1, 0], [1, 0], [0, 1]], active_player = 0,
          player_locations = [Some (0, 0), Some (1, 0)]\<rparr> \<and>
   distinct (get_legal_moves \<lparr>board = [[1, 0], [1, 0], [0, 1]], active_player = 0,
          player_locations = [Some (0, 0), Some (1, 0)]\<rparr>) \<and>
   (0, 0) \<notin> set (get_legal_moves \<lparr>board = [[1, 0], [1, 0], [0, 1]], active_player = 0,
          player_locations = [Some (0, 0), Some (1, 0)]\<rparr>) \<and>
   set (ray_moves [[1, 0], [1, 0], [0, 1]] (0, 0) (0, 1)) \<inter>
     set (ray_moves [[1, 0], [1, 0], [0, 1]] (0, 0) (1, 1)) = {}"
proof -
  let ?s = "\<lparr>board = [[1, 0], [1, 0], [0, 1]], active_player = 0,
          player_locations = [Some (0, 0), Some (1, 0)]\<rparr>"
  have w: "wf_state ?s"
    by (simp add: wf_state_def in_board_def xlim_def ylim_def)
  have l: "player_locations ?s ! nat (active_player ?s) = Some (0, 0)"
    by simp
  have r: "(0, 1) \<in> set rays" "(1, 1) \<in> set rays" "((0, 1) :: int \<times> int) \<noteq> (1, 1)"
    by (simp_all add: rays_def)
  from legal_moves_distinct [OF w l] r w show ?thesis
    by auto
qed

section \<open>The search\<close>

lemma forecast_case:
  "(case forecast_move s m of Inl e \<Rightarrow> Inl e
    | Inr child \<Rightarrow> (case g child of Inl e \<Rightarrow> Inl e | Inr w \<Rightarrow> h w)) =
   (case forecast_then g s m of Inl e \<Rightarrow> Inl e | Inr w \<Rightarrow> h w)"
  by (simp add: forecast_then_def split: sum.split)

lemma min_value_unfold:
  "min_value s d =
     (if terminal_test s then Inr (Fin 1)
      else if d \<le> 0 then Inr (Fin 0)
      else fold (\<lambda>move r. case r of
                   Inl e \<Rightarrow> Inl e
                 | Inr v \<Rightarrow>
                     (case forecast_then (\<lambda>c. max_value c (d - 1)) s move of
                        Inl e \<Rightarrow> Inl e
                      | Inr w \<Rightarrow> Inr (py_min v w)))
             (get_legal_moves s) (Inr PosInf))"
  by (subst min_value.simps) (simp only: forecast_case)

lemma max_value_unfold:
  "max_value s d =
     (if terminal_test s then Inr (Fin (- 1))
      else if d \<le> 0 then Inr (Fin 0)
      else fold (\<lambda>move r. case r of
                   Inl e \<Rightarrow> Inl e
                 | Inr v \<Rightarrow>
                     (case forecast_then (\<lambda>c. min_value c (d - 1)) s move of
                        Inl e \<Rightarrow> Inl e
                      | Inr w \<Rightarrow> Inr (py_max v w)))
             (get_legal_moves s) (Inr NegInf))"
  by (subst max_value.simps) (simp only: forecast_case)

text \<open>A loop none of whose steps fails: the fold over the values.\<close>

lemma fold_values:
  "map f ms = map Inr ws \<Longrightarrow>
   fold (\<lambda>m r. case r of
           Inl e \<Rightarrow> Inl e
         | Inr v \<Rightarrow> (case f m of Inl e \<Rightarrow> Inl e | Inr w \<Rightarrow> Inr (h v w)))
     ms (Inr a) =
   Inr (fold (\<lambda>w v. h v w) ws a)"
proof (induction ms arbitrary: ws a)
  case Nil
  then show ?case by simp
next
  case (Cons m ms)
  then obtain w ws' where "ws = w # ws'" and "f m = Inr w" and "map f ms = map Inr ws'"
    by (cases ws) auto
  with Cons.IH [of ws' "h a w"] show ?case
    by simp
qed

lemma fold_py_min: "fold (\<lambda>w v. py_min v w) (map Fin vs) (Fin a) = Fin (fold min vs a)"
  by (induction vs arbitrary: a) (simp_all add: py_min_def min_def)

lemma fold_py_max: "fold (\<lambda>w v. py_max v w) (map Fin vs) (Fin a) = Fin (fold max vs a)"
  by (induction vs arbitrary: a) (simp_all add: py_max_def max_def)

lemma py_min_PosInf: "py_min PosInf (Fin a) = Fin a"
  by (simp add: py_min_def)

lemma py_max_NegInf: "py_max NegInf (Fin a) = Fin a"
  by (simp add: py_max_def)

lemma fold_py_min_PosInf:
  "vs \<noteq> [] \<Longrightarrow> fold (\<lambda>w v. py_min v w) (map Fin vs) PosInf = Fin (Min (set vs))"
  by (cases vs) (simp_all add: py_min_PosInf fold_py_min Min.set_eq_fold [symmetric])

lemma fold_py_max_NegInf:
  "vs \<noteq> [] \<Longrightarrow> fold (\<lambda>w v. py_max v w) (map Fin vs) NegInf = Fin (Max (set vs))"
  by (cases vs) (simp_all add: py_max_NegInf fold_py_max Max.set_eq_fold [symmetric])

lemma min_value_fold:
  assumes "\<not> terminal_test s" and "0 < d"
    and "map (forecast_then (\<lambda>c. max_value c (d - 1)) s) (get_legal_moves s) = map (\<lambda>v. Inr (Fin v)) vs"
  shows "min_value s d = Inr (Fin (Min (set vs)))"
proof -
  from assms(3) have "length vs = length (get_legal_moves s)"
    by (metis length_map)
  with assms(1) have ne: "vs \<noteq> []"
    by (auto simp: terminal_test_def)
  from assms(3)
  have "map (forecast_then (\<lambda>c. max_value c (d - 1)) s) (get_legal_moves s) = map Inr (map Fin vs)"
    by (simp add: comp_def)
  from fold_values [OF this, of py_min PosInf] assms(1,2) ne show ?thesis
    by (simp add: min_value_unfold [of s d] fold_py_min_PosInf)
qed

lemma max_value_fold:
  assumes "\<not> terminal_test s" and "0 < d"
    and "map (forecast_then (\<lambda>c. min_value c (d - 1)) s) (get_legal_moves s) = map (\<lambda>v. Inr (Fin v)) vs"
  shows "max_value s d = Inr (Fin (Max (set vs)))"
proof -
  from assms(3) have "length vs = length (get_legal_moves s)"
    by (metis length_map)
  with assms(1) have ne: "vs \<noteq> []"
    by (auto simp: terminal_test_def)
  from assms(3)
  have "map (forecast_then (\<lambda>c. min_value c (d - 1)) s) (get_legal_moves s) = map Inr (map Fin vs)"
    by (simp add: comp_def)
  from fold_values [OF this, of py_max NegInf] assms(1,2) ne show ?thesis
    by (simp add: max_value_unfold [of s d] fold_py_max_NegInf)
qed

lemma values_list:
  "(\<And>m. m \<in> set ms \<Longrightarrow> \<exists>v\<in>S. f m = Inr (Fin v)) \<Longrightarrow>
   \<exists>vs. map f ms = map (\<lambda>v. Inr (Fin v)) vs \<and> set vs \<subseteq> S"
proof (induction ms)
  case Nil
  then show ?case by simp
next
  case (Cons m ms)
  have "\<exists>vs. map f ms = map (\<lambda>v. Inr (Fin v)) vs \<and> set vs \<subseteq> S"
    by (rule Cons.IH) (simp add: Cons.prems)
  then obtain vs where "map f ms = map (\<lambda>v. Inr (Fin v)) vs" and "set vs \<subseteq> S"
    by blast
  moreover from Cons.prems obtain v where "v \<in> S" and "f m = Inr (Fin v)"
    by auto
  ultimately have "map f (m # ms) = map (\<lambda>v. Inr (Fin v)) (v # vs) \<and> set (v # vs) \<subseteq> S"
    by simp
  then show ?case
    by blast
qed

lemma child_values:
  assumes "\<And>c. \<exists>v\<in>{- 1, 0, 1}. g c = Inr (Fin v)"
  shows "\<exists>vs. map (forecast_then g s) (get_legal_moves s) = map (\<lambda>v. Inr (Fin v)) vs \<and>
              set vs \<subseteq> {- 1, 0, 1}"
proof (rule values_list)
  fix m
  assume "m \<in> set (get_legal_moves s)"
  then obtain child where "forecast_move s m = Inr child"
    by (auto simp: forecast_move_legal)
  then have "forecast_then g s m = g child"
    by (simp add: forecast_then_def)
  with assms [of child] show "\<exists>v\<in>{- 1, 0, 1}. forecast_then g s m = Inr (Fin v)"
    by simp
qed

lemma values_range:
  "(\<exists>v\<in>{- 1, 0, 1}. min_value s d = Inr (Fin v)) \<and> (\<exists>v\<in>{- 1, 0, 1}. max_value s d = Inr (Fin v))"
proof (induction "nat d" arbitrary: s d)
  case 0
  then have "d \<le> 0" by simp
  then show ?case
    by (simp add: min_value_unfold [of s d] max_value_unfold [of s d])
next
  case (Suc n)
  then have d: "0 < d" and n: "n = nat (d - 1)"
    by simp_all
  show ?case
  proof (cases "terminal_test s")
    case True
    then show ?thesis
      by (simp add: min_value_unfold [of s d] max_value_unfold [of s d])
  next
    case False
    have ne: "get_legal_moves s \<noteq> []"
      using False by (simp add: terminal_test_def)
    obtain vs where vs: "map (forecast_then (\<lambda>c. max_value c (d - 1)) s) (get_legal_moves s) =
        map (\<lambda>v. Inr (Fin v)) vs" and r: "set vs \<subseteq> {- 1, 0, 1}"
      using child_values [of "\<lambda>c. max_value c (d - 1)" s] Suc.hyps(1) [OF n] by blast
    obtain ws where ws: "map (forecast_then (\<lambda>c. min_value c (d - 1)) s) (get_legal_moves s) =
        map (\<lambda>v. Inr (Fin v)) ws" and r': "set ws \<subseteq> {- 1, 0, 1}"
      using child_values [of "\<lambda>c. min_value c (d - 1)" s] Suc.hyps(1) [OF n] by blast
    have "vs \<noteq> []" "ws \<noteq> []"
      using vs ws ne by auto
    then have "Min (set vs) \<in> set vs" "Max (set ws) \<in> set ws"
      by simp_all
    with r r' have "Min (set vs) \<in> {- 1, 0, 1}" "Max (set ws) \<in> {- 1, 0, 1}"
      by blast+
    then show ?thesis
      using min_value_fold [OF False d vs] max_value_fold [OF False d ws] by simp
  qed
qed

lemma minimax_decision_unfold:
  "minimax_decision s d =
     (case fold (\<lambda>m r. case r of
                   Inl e \<Rightarrow> Inl e
                 | Inr (best_score, best_move) \<Rightarrow>
                     (case forecast_then (\<lambda>c. min_value c (d - 1)) s m of
                        Inl e \<Rightarrow> Inl e
                      | Inr v \<Rightarrow>
                          if score_less best_score v then Inr (v, Some m)
                          else Inr (best_score, best_move)))
             (get_legal_moves s) (Inr (NegInf, None)) of
        Inl e \<Rightarrow> Inl e
      | Inr (best_score, best_move) \<Rightarrow> Inr best_move)"
  by (simp only: minimax_decision_def forecast_case)

lemma decision_fold:
  "map f ms = map (\<lambda>v. Inr (Fin v)) vs \<Longrightarrow>
   fold (\<lambda>m r. case r of
           Inl e \<Rightarrow> Inl e
         | Inr (best_score, best_move) \<Rightarrow>
             (case f m of
                Inl e \<Rightarrow> Inl e
              | Inr v \<Rightarrow>
                  if score_less best_score v then Inr (v, Some m)
                  else Inr (best_score, best_move)))
     ms (Inr st) =
   Inr (fold keep_best (zip ms vs) st)"
proof (induction ms arbitrary: vs st)
  case Nil
  then show ?case by simp
next
  case (Cons m ms)
  then obtain v vs' where vs: "vs = v # vs'" and fm: "f m = Inr (Fin v)"
    and rest: "map f ms = map (\<lambda>v. Inr (Fin v)) vs'"
    by (cases vs) auto
  obtain bs bm where st: "st = (bs, bm)"
    by (cases st)
  show ?case
  proof (cases "score_less bs (Fin v)")
    case True
    with Cons.IH [OF rest, of "(Fin v, Some m)"] show ?thesis
      by (simp add: vs fm st keep_best_def)
  next
    case False
    with Cons.IH [OF rest, of "(bs, bm)"] show ?thesis
      by (simp add: vs fm st keep_best_def)
  qed
qed

lemma keep_best_fold:
  "ps \<noteq> [] \<Longrightarrow>
   \<exists>i<length ps. fold keep_best ps (NegInf, None) = (Fin (snd (ps ! i)), Some (fst (ps ! i))) \<and>
     (\<forall>j<length ps. snd (ps ! j) \<le> snd (ps ! i)) \<and> (\<forall>j<i. snd (ps ! j) < snd (ps ! i))"
proof (induction ps rule: rev_induct)
  case Nil
  then show ?case by simp
next
  case (snoc p qs)
  show ?case
  proof (cases "qs = []")
    case True
    then show ?thesis
      by (simp add: keep_best_def)
  next
    case False
    with snoc.IH obtain i where i: "i < length qs"
      and f: "fold keep_best qs (NegInf, None) = (Fin (snd (qs ! i)), Some (fst (qs ! i)))"
      and mx: "\<forall>j<length qs. snd (qs ! j) \<le> snd (qs ! i)"
      and fst: "\<forall>j<i. snd (qs ! j) < snd (qs ! i)"
      by blast
    show ?thesis
    proof (cases "snd (qs ! i) < snd p")
      case True
      have "fold keep_best (qs @ [p]) (NegInf, None) =
          (Fin (snd ((qs @ [p]) ! length qs)), Some (fst ((qs @ [p]) ! length qs)))"
        using True by (simp add: f keep_best_def)
      moreover have "\<forall>j<length (qs @ [p]). snd ((qs @ [p]) ! j) \<le> snd ((qs @ [p]) ! length qs)"
        using True mx by (auto simp: nth_append less_Suc_eq)
      moreover have "\<forall>j<length qs. snd ((qs @ [p]) ! j) < snd ((qs @ [p]) ! length qs)"
        using True mx by (auto simp: nth_append)
      ultimately show ?thesis
        by (intro exI [of _ "length qs"]) simp
    next
      case False
      have "fold keep_best (qs @ [p]) (NegInf, None) =
          (Fin (snd ((qs @ [p]) ! i)), Some (fst ((qs @ [p]) ! i)))"
        using False i by (simp add: f keep_best_def nth_append)
      moreover have "\<forall>j<length (qs @ [p]). snd ((qs @ [p]) ! j) \<le> snd ((qs @ [p]) ! i)"
        using False mx i by (auto simp: nth_append less_Suc_eq)
      moreover have "\<forall>j<i. snd ((qs @ [p]) ! j) < snd ((qs @ [p]) ! i)"
        using fst i by (auto simp: nth_append)
      ultimately show ?thesis
        using i by (intro exI [of _ i]) simp
    qed
  qed
qed

subsection \<open>The search over the store\<close>

lemma take_extend:
  "take (length a) b = a \<Longrightarrow> take (length b) c = b \<Longrightarrow> take (length a) c = a"
proof -
  assume ab: "take (length a) b = a" and bc: "take (length b) c = b"
  have "length (take (length a) b) = length a"
    using ab by simp
  then have "length a \<le> length b"
    by simp
  then have "take (length a) c = take (length a) (take (length b) c)"
    by (simp add: min_absorb1)
  with ab bc show ?thesis
    by simp
qed


text \<open>
  A loop over the store each of whose steps returns what the step over values returns
  and only adds objects: so does the loop.
\<close>

lemma fold_store:
  assumes step: "\<And>m a hc. m \<in> M \<Longrightarrow> take (length h0) hc = h0 \<Longrightarrow>
                   \<exists>h'. step_h m a hc = (step_v m a, h') \<and> take (length hc) h' = hc"
  shows "set ms \<subseteq> M \<Longrightarrow> take (length h0) hc = h0 \<Longrightarrow>
    \<exists>h'. fold (\<lambda>m (r, h). case r of Inl e \<Rightarrow> (Inl e, h) | Inr a \<Rightarrow> step_h m a h) ms (acc, hc) =
            (fold (\<lambda>m r. case r of Inl e \<Rightarrow> Inl e | Inr a \<Rightarrow> step_v m a) ms acc, h') \<and>
          take (length hc) h' = hc"
proof (induction ms arbitrary: acc hc)
  case Nil
  then show ?case by simp
next
  case (Cons m ms)
  have m: "m \<in> M" and ms: "set ms \<subseteq> M"
    using Cons.prems(1) by simp_all
  show ?case
  proof (cases acc)
    case (Inl e)
    from Cons.IH [OF ms Cons.prems(2), of "Inl e"] show ?thesis
      by (simp add: Inl)
  next
    case (Inr a)
    from step [OF m Cons.prems(2), of a] obtain h1
      where s1: "step_h m a hc = (step_v m a, h1)" and t1: "take (length hc) h1 = hc"
      by blast
    have t01: "take (length h0) h1 = h0"
      using Cons.prems(2) t1 by (rule take_extend)
    from Cons.IH [OF ms t01, of "step_v m a"] obtain h'
      where IH: "fold (\<lambda>m (r, h). case r of Inl e \<Rightarrow> (Inl e, h) | Inr a \<Rightarrow> step_h m a h) ms
              (step_v m a, h1) =
            (fold (\<lambda>m r. case r of Inl e \<Rightarrow> Inl e | Inr a \<Rightarrow> step_v m a) ms (step_v m a), h')"
        and t': "take (length h1) h' = h1"
      by blast
    have "take (length hc) h' = hc"
      using t1 t' by (rule take_extend)
    with IH show ?thesis
      by (simp add: Inr s1)
  qed
qed

text \<open>
  One step of the three loops: forecast the move, evaluate the child with \<open>gh\<close>, go on
  with \<open>fin\<close>.
\<close>

lemma search_step:
  assumes v: "valid_instance h0 r" and w: "wf_state (state_of h0 r)"
    and g: "\<And>h c. valid_instance h c \<Longrightarrow> wf_state (state_of h c) \<Longrightarrow>
              \<exists>h'. gh h c = (g (state_of h c), h') \<and> take (length h) h' = h"
    and m: "m \<in> set (get_legal_moves (state_of h0 r))"
    and ext: "take (length h0) hc = h0"
  shows "\<exists>h'. (case forecast_move_h hc r m of
                 (Inl e, h) \<Rightarrow> (Inl e, h)
               | (Inr child, h) \<Rightarrow>
                   (case gh h child of
                      (Inl e, h) \<Rightarrow> (Inl e, h)
                    | (Inr w, h) \<Rightarrow> (fin w, h))) =
              (case forecast_move (state_of h0 r) m of
                 Inl e \<Rightarrow> Inl e
               | Inr child \<Rightarrow> (case g child of Inl e \<Rightarrow> Inl e | Inr w \<Rightarrow> fin w), h') \<and>
              take (length hc) h' = hc"
proof -
  have vc: "valid_instance hc r" and sc: "state_of hc r = state_of h0 r"
    using state_of_extend [OF v ext] by simp_all
  have wc: "wf_state (state_of hc r)" and mc: "m \<in> set (get_legal_moves (state_of hc r))"
    using w m sc by simp_all
  from forecast_move_h_legal [OF vc wc mc] obtain h1 child
    where run: "forecast_move_h hc r m = (Inr child, h1)" and t1: "take (length hc) h1 = hc"
      and v1: "valid_instance h1 child"
      and f: "forecast_move (state_of h0 r) m = Inr (state_of h1 child)"
    using sc by auto
  have w1: "wf_state (state_of h1 child)"
    using w f by (rule wf_state_forecast_move)
  from g [OF v1 w1] obtain h2
    where gh: "gh h1 child = (g (state_of h1 child), h2)" and t2: "take (length h1) h2 = h1"
    by blast
  have "take (length hc) h2 = hc"
    using t1 t2 by (rule take_extend)
  then show ?thesis
    by (intro exI [of _ h2]) (simp add: run gh f split: sum.split)
qed

lemma search_h:
  "valid_instance h r \<Longrightarrow> wf_state (state_of h r) \<Longrightarrow>
   (\<exists>h'. min_value_h h r d = (min_value (state_of h r) d, h') \<and> take (length h) h' = h) \<and>
   (\<exists>h'. max_value_h h r d = (max_value (state_of h r) d, h') \<and> take (length h) h' = h)"
proof (induction "nat d" arbitrary: h r d)
  case 0
  then have "d \<le> 0" by simp
  then show ?case
    by (simp add: min_value_h.simps [of h r d] max_value_h.simps [of h r d]
        min_value.simps [of _ d] max_value.simps [of _ d])
next
  case (Suc n)
  then have d: "\<not> d \<le> 0" and n: "n = nat (d - 1)"
    by simp_all
  show ?case
  proof (cases "terminal_test (state_of h r)")
    case True
    then show ?thesis
      by (simp add: min_value_h.simps [of h r d] max_value_h.simps [of h r d]
          min_value.simps [of _ d] max_value.simps [of _ d])
  next
    case False
    have gmax: "\<exists>h'. max_value_h h c (d - 1) = (max_value (state_of h c) (d - 1), h') \<and>
        take (length h) h' = h"
      if "valid_instance h c" and "wf_state (state_of h c)" for h c
      using Suc.hyps(1) [OF n that] by blast
    have gmin: "\<exists>h'. min_value_h h c (d - 1) = (min_value (state_of h c) (d - 1), h') \<and>
        take (length h) h' = h"
      if "valid_instance h c" and "wf_state (state_of h c)" for h c
      using Suc.hyps(1) [OF n that] by blast
    have t: "take (length h) h = h"
      by simp
    have "\<exists>h'. fold (\<lambda>m (r', h). case r' of
                  Inl e \<Rightarrow> (Inl e, h)
                | Inr v \<Rightarrow>
                    (case forecast_move_h h r m of
                       (Inl e, h) \<Rightarrow> (Inl e, h)
                     | (Inr child, h) \<Rightarrow>
                         (case max_value_h h child (d - 1) of
                            (Inl e, h) \<Rightarrow> (Inl e, h)
                          | (Inr w, h) \<Rightarrow> (Inr (py_min v w), h))))
            (get_legal_moves (state_of h r)) (Inr PosInf, h) =
          (fold (\<lambda>m r'. case r' of
                   Inl e \<Rightarrow> Inl e
                 | Inr v \<Rightarrow>
                     (case forecast_move (state_of h r) m of
                        Inl e \<Rightarrow> Inl e
                      | Inr child \<Rightarrow>
                          (case max_value child (d - 1) of
                             Inl e \<Rightarrow> Inl e
                           | Inr w \<Rightarrow> Inr (py_min v w))))
             (get_legal_moves (state_of h r)) (Inr PosInf), h') \<and>
          take (length h) h' = h"
      by (rule fold_store [where M = "set (get_legal_moves (state_of h r))" and ?h0.0 = h])
         (rule search_step [OF Suc.prems gmax], simp_all)
    then have a: "\<exists>h'. min_value_h h r d = (min_value (state_of h r) d, h') \<and>
        take (length h) h' = h"
      using False d
      by (simp add: min_value_h.simps [of h r d] min_value.simps [of "state_of h r" d])
    have "\<exists>h'. fold (\<lambda>m (r', h). case r' of
                  Inl e \<Rightarrow> (Inl e, h)
                | Inr v \<Rightarrow>
                    (case forecast_move_h h r m of
                       (Inl e, h) \<Rightarrow> (Inl e, h)
                     | (Inr child, h) \<Rightarrow>
                         (case min_value_h h child (d - 1) of
                            (Inl e, h) \<Rightarrow> (Inl e, h)
                          | (Inr w, h) \<Rightarrow> (Inr (py_max v w), h))))
            (get_legal_moves (state_of h r)) (Inr NegInf, h) =
          (fold (\<lambda>m r'. case r' of
                   Inl e \<Rightarrow> Inl e
                 | Inr v \<Rightarrow>
                     (case forecast_move (state_of h r) m of
                        Inl e \<Rightarrow> Inl e
                      | Inr child \<Rightarrow>
                          (case min_value child (d - 1) of
                             Inl e \<Rightarrow> Inl e
                           | Inr w \<Rightarrow> Inr (py_max v w))))
             (get_legal_moves (state_of h r)) (Inr NegInf), h') \<and>
          take (length h) h' = h"
      by (rule fold_store [where M = "set (get_legal_moves (state_of h r))" and ?h0.0 = h])
         (rule search_step [OF Suc.prems gmin], simp_all)
    then have b: "\<exists>h'. max_value_h h r d = (max_value (state_of h r) d, h') \<and>
        take (length h) h' = h"
      using False d
      by (simp add: max_value_h.simps [of h r d] max_value.simps [of "state_of h r" d])
    from a b show ?thesis
      by simp
  qed
qed

lemma minimax_decision_h:
  assumes "valid_instance h r" and "wf_state (state_of h r)"
  shows "\<exists>h'. minimax_decision_h h r d = (minimax_decision (state_of h r) d, h') \<and>
              take (length h) h' = h"
proof -
  have gmin: "\<exists>h'. min_value_h h c (d - 1) = (min_value (state_of h c) (d - 1), h') \<and>
      take (length h) h' = h"
    if "valid_instance h c" and "wf_state (state_of h c)" for h c
    using search_h [OF that] by blast
  have "\<exists>h'. fold (\<lambda>m (r', h). case r' of
                   Inl e \<Rightarrow> (Inl e, h)
                 | Inr (best_score, best_move) \<Rightarrow>
                     (case forecast_move_h h r m of
                        (Inl e, h) \<Rightarrow> (Inl e, h)
                      | (Inr child, h) \<Rightarrow>
                          (case min_value_h h child (d - 1) of
                             (Inl e, h) \<Rightarrow> (Inl e, h)
                           | (Inr v, h) \<Rightarrow>
                               (if score_less best_score v then Inr (v, Some m)
                                else Inr (best_score, best_move), h))))
             (get_legal_moves (state_of h r)) (Inr (NegInf, None), h) =
          (fold (\<lambda>m r'. case r' of
                   Inl e \<Rightarrow> Inl e
                 | Inr (best_score, best_move) \<Rightarrow>
                     (case forecast_move (state_of h r) m of
                        Inl e \<Rightarrow> Inl e
                      | Inr child \<Rightarrow>
                          (case min_value child (d - 1) of
                             Inl e \<Rightarrow> Inl e
                           | Inr v \<Rightarrow>
                               if score_less best_score v then Inr (v, Some m)
                               else Inr (best_score, best_move))))
             (get_legal_moves (state_of h r)) (Inr (NegInf, None)), h') \<and>
          take (length h) h' = h"
    by (rule fold_store [where M = "set (get_legal_moves (state_of h r))" and ?h0.0 = h])
       (auto intro: search_step [OF assms gmin])
  then show ?thesis
    by (auto simp: minimax_decision_h_def minimax_decision_def split: sum.split prod.split)
qed

lemma small_store:
  "valid_instance
     [ListOfInts c0, ListOfInts c1, ListOfInts c2, ListOfLists [0, 1, 2], ListOfLocs ls,
      Instance 3 a 4] 5 \<and>
   state_of
     [ListOfInts c0, ListOfInts c1, ListOfInts c2, ListOfLists [0, 1, 2], ListOfLocs ls,
      Instance 3 a 4] 5 =
     \<lparr>board = [c0, c1, c2], active_player = a, player_locations = ls\<rparr>"
  by (simp add: valid_instance_def state_of_def the_columns_def the_ints_def the_locs_def)

lemma search_h_dom: "min_value_h_max_value_h_dom c"
proof -
  have "All min_value_h_max_value_h_dom"
    by (relation "measure (\<lambda>a. case a of Inl (h, s, d) \<Rightarrow> nat d | Inr (h, s, d) \<Rightarrow> nat d)") auto
  then show ?thesis
    by simp
qed

text \<open>
  Claim C1. \<^verbatim>\<open>minimax_decision\<close> returns "no move" (\<^verbatim>\<open>None\<close>) when there is no legal
  move. Otherwise every legal move \<open>m\<close> has an integer value, the result of
  \<^verbatim>\<open>min_value(forecast_move(m), depth - 1)\<close>, and the call returns the legal move at the
  first index \<open>i\<close> whose value is the maximum: no value is greater, and every value at
  an earlier index is strictly smaller. This holds for every state and every depth, in
  particular for the non-terminal states and positive depths of the claim.
\<close>

theorem minimax_decision_spec:
  "if get_legal_moves s = [] then minimax_decision s d = Inr None
   else \<exists>vs i. map (forecast_then (\<lambda>c. min_value c (d - 1)) s) (get_legal_moves s) =
                   map (\<lambda>v. Inr (Fin v)) vs \<and>
                 i < length vs \<and>
                 minimax_decision s d = Inr (Some (get_legal_moves s ! i)) \<and>
                 (\<forall>j<length vs. vs ! j \<le> vs ! i) \<and>
                 (\<forall>j<i. vs ! j < vs ! i)"
proof (cases "get_legal_moves s = []")
  case True
  then show ?thesis
    by (simp add: minimax_decision_unfold [of s d])
next
  case False
  obtain vs where vs: "map (forecast_then (\<lambda>c. min_value c (d - 1)) s) (get_legal_moves s) =
      map (\<lambda>v. Inr (Fin v)) vs"
    using child_values [of "\<lambda>c. min_value c (d - 1)" s] values_range by blast
  then have len: "length vs = length (get_legal_moves s)"
    by (metis length_map)
  let ?ps = "zip (get_legal_moves s) vs"
  have "?ps \<noteq> []"
    using False len by (cases "get_legal_moves s"; cases vs) simp_all
  from keep_best_fold [OF this] obtain i where i: "i < length ?ps"
    and f: "fold keep_best ?ps (NegInf, None) = (Fin (snd (?ps ! i)), Some (fst (?ps ! i)))"
    and mx: "\<forall>j<length ?ps. snd (?ps ! j) \<le> snd (?ps ! i)"
    and fst: "\<forall>j<i. snd (?ps ! j) < snd (?ps ! i)"
    by blast
  have d: "minimax_decision s d = Inr (Some (get_legal_moves s ! i))"
    using i by (simp add: minimax_decision_unfold [of s d] decision_fold [OF vs] f)
  have "i < length vs"
    using i len by simp
  moreover have "\<forall>j<length vs. vs ! j \<le> vs ! i"
    using mx i len by simp
  moreover have "\<forall>j<i. vs ! j < vs ! i"
    using fst i len by simp
  ultimately show ?thesis
    using False vs d by auto
qed


text \<open>
  Claim C2. \<^verbatim>\<open>max_value\<close> returns -1 on a terminal state, else 0 when the depth is not
  positive, else the maximum of the values \<^verbatim>\<open>min_value(forecast_move(m), depth - 1)\<close> of
  the legal moves \<open>m\<close>, all of which are integers; \<^verbatim>\<open>min_value\<close> returns +1 on a terminal
  state, else 0 when the depth is not positive, else the minimum of the values
  \<^verbatim>\<open>max_value(forecast_move(m), depth - 1)\<close>. Neither changes the state: called on an
  instance \<open>r\<close> that stands for the state \<open>s\<close>, each returns the value above for \<open>s\<close>, the
  store before the call is the beginning of the store after it, and \<open>r\<close> still stands for
  \<open>s\<close>.
\<close>

theorem min_max_value_spec:
  assumes "valid_instance h r" and "state_of h r = s" and "wf_state s"
  shows "(\<exists>h'. max_value_h h r d = (max_value s d, h') \<and> take (length h) h' = h \<and>
               state_of h' r = s) \<and>
         (\<exists>h'. min_value_h h r d = (min_value s d, h') \<and> take (length h) h' = h \<and>
               state_of h' r = s) \<and>
         (if terminal_test s then max_value s d = Inr (Fin (- 1))
          else if d \<le> 0 then max_value s d = Inr (Fin 0)
          else \<exists>vs. map (forecast_then (\<lambda>c. min_value c (d - 1)) s) (get_legal_moves s) =
                       map (\<lambda>v. Inr (Fin v)) vs \<and>
                     max_value s d = Inr (Fin (Max (set vs)))) \<and>
         (if terminal_test s then min_value s d = Inr (Fin 1)
          else if d \<le> 0 then min_value s d = Inr (Fin 0)
          else \<exists>vs. map (forecast_then (\<lambda>c. max_value c (d - 1)) s) (get_legal_moves s) =
                       map (\<lambda>v. Inr (Fin v)) vs \<and>
                     min_value s d = Inr (Fin (Min (set vs))))"
proof -
  have w: "wf_state (state_of h r)"
    using assms by simp
  from search_h [OF assms(1) w, of d] obtain h1 h2
    where a: "max_value_h h r d = (max_value s d, h1)" "take (length h) h1 = h"
      and b: "min_value_h h r d = (min_value s d, h2)" "take (length h) h2 = h"
    using assms(2) by auto
  have "state_of h1 r = s" "state_of h2 r = s"
    using state_of_extend [OF assms(1)] a(2) b(2) assms(2) by simp_all
  with a b have store: "(\<exists>h'. max_value_h h r d = (max_value s d, h') \<and> take (length h) h' = h \<and>
               state_of h' r = s) \<and>
         (\<exists>h'. min_value_h h r d = (min_value s d, h') \<and> take (length h) h' = h \<and>
               state_of h' r = s)"
    by blast
  have "(if terminal_test s then max_value s d = Inr (Fin (- 1))
          else if d \<le> 0 then max_value s d = Inr (Fin 0)
          else \<exists>vs. map (forecast_then (\<lambda>c. min_value c (d - 1)) s) (get_legal_moves s) =
                       map (\<lambda>v. Inr (Fin v)) vs \<and>
                     max_value s d = Inr (Fin (Max (set vs)))) \<and>
         (if terminal_test s then min_value s d = Inr (Fin 1)
          else if d \<le> 0 then min_value s d = Inr (Fin 0)
          else \<exists>vs. map (forecast_then (\<lambda>c. max_value c (d - 1)) s) (get_legal_moves s) =
                       map (\<lambda>v. Inr (Fin v)) vs \<and>
                     min_value s d = Inr (Fin (Min (set vs))))"
  proof (cases "terminal_test s \<or> d \<le> 0")
    case True
    then show ?thesis
      by (auto simp: min_value_unfold [of s d] max_value_unfold [of s d])
  next
    case False
    then have t: "\<not> terminal_test s" and d: "0 < d"
      by simp_all
    obtain vs where vs: "map (forecast_then (\<lambda>c. max_value c (d - 1)) s) (get_legal_moves s) =
        map (\<lambda>v. Inr (Fin v)) vs"
      using child_values [of "\<lambda>c. max_value c (d - 1)" s] values_range by blast
    obtain ws where ws: "map (forecast_then (\<lambda>c. min_value c (d - 1)) s) (get_legal_moves s) =
        map (\<lambda>v. Inr (Fin v)) ws"
      using child_values [of "\<lambda>c. min_value c (d - 1)" s] values_range by blast
    from vs ws min_value_fold [OF t d vs] max_value_fold [OF t d ws] t d show ?thesis
      by auto
  qed
  with store show ?thesis
    by blast
qed

text \<open>
  Claim C8. \<^verbatim>\<open>min_value\<close> and \<^verbatim>\<open>max_value\<close> return -1, 0 or 1 for every state and every
  depth: no error and neither infinity, since a state that is not terminal has a legal
  move for the loop to fold over.
\<close>

theorem values_in_range:
  "min_value s d \<in> {Inr (Fin (- 1)), Inr (Fin 0), Inr (Fin 1)} \<and>
   max_value s d \<in> {Inr (Fin (- 1)), Inr (Fin 0), Inr (Fin 1)} \<and>
   (terminal_test s \<or> get_legal_moves s \<noteq> [])"
  using values_range [of s d] by (auto simp: terminal_test_def)

lemma terminal_example:
  "get_legal_moves \<lparr>board = [[1, 1], [1, 1], [0, 1]], active_player = 0,
          player_locations = [Some (0, 1), Some (1, 1)]\<rparr> = []"
  by (subst get_legal_moves_placed [of _ "(0, 1)"])
     (simp_all add: rays_def ray_moves_cells ray_step_def is_open_def in_board_def
        xlim_def ylim_def)

lemma values_example:
  "map (forecast_then (\<lambda>c. min_value c (3 - 1))
          \<lparr>board = [[1, 0], [1, 0], [0, 1]], active_player = 0,
            player_locations = [Some (0, 0), Some (1, 0)]\<rparr>)
     (get_legal_moves \<lparr>board = [[1, 0], [1, 0], [0, 1]], active_player = 0,
            player_locations = [Some (0, 0), Some (1, 0)]\<rparr>) =
   [Inr (Fin (- 1)), Inr (Fin 1)]"
  by code_simp

lemma values_example_init:
  "map (forecast_then (\<lambda>c. min_value c (1 - 1)) GameState_init)
     (get_legal_moves GameState_init) =
   [Inr (Fin 0), Inr (Fin 0), Inr (Fin 0), Inr (Fin 0), Inr (Fin 0)]"
  by code_simp

theorem minimax_decision_spec_witness:
  "get_legal_moves \<lparr>board = [[1, 1], [1, 1], [0, 1]], active_player = 0,
          player_locations = [Some (0, 1), Some (1, 1)]\<rparr> = [] \<and>
   minimax_decision \<lparr>board = [[1, 1], [1, 1], [0, 1]], active_player = 0,
          player_locations = [Some (0, 1), Some (1, 1)]\<rparr> 3 = Inr None \<and>
   get_legal_moves \<lparr>board = [[1, 0], [1, 0], [0, 1]], active_player = 0,
          player_locations = [Some (0, 0), Some (1, 0)]\<rparr> = [(0, 1), (1, 1)] \<and>
   minimax_decision \<lparr>board = [[1, 0], [1, 0], [0, 1]], active_player = 0,
          player_locations = [Some (0, 0), Some (1, 0)]\<rparr> 3 = Inr (Some (1, 1)) \<and>
   minimax_decision GameState_init 1 = Inr (Some (0, 0))"
proof -
  let ?st = "\<lparr>board = [[1, 1], [1, 1], [0, 1]], active_player = 0,
          player_locations = [Some (0, 1), Some (1, 1)]\<rparr>"
  let ?s2 = "\<lparr>board = [[1, 0], [1, 0], [0, 1]], active_player = 0,
          player_locations = [Some (0, 0), Some (1, 0)]\<rparr>"
  have a: "minimax_decision ?st 3 = Inr None"
    using minimax_decision_spec [of ?st 3] by (simp add: terminal_example)
  have b: "minimax_decision ?s2 3 = Inr (Some (1, 1))"
  proof -
    have ne: "get_legal_moves ?s2 \<noteq> []"
      by (simp add: get_legal_moves_after_two)
    have "\<exists>vs i. map (forecast_then (\<lambda>c. min_value c (3 - 1)) ?s2) (get_legal_moves ?s2) =
                   map (\<lambda>v. Inr (Fin v)) vs \<and>
                 i < length vs \<and>
                 minimax_decision ?s2 3 = Inr (Some (get_legal_moves ?s2 ! i)) \<and>
                 (\<forall>j<length vs. vs ! j \<le> vs ! i) \<and>
                 (\<forall>j<i. vs ! j < vs ! i)"
      using minimax_decision_spec [of ?s2 3] unfolding if_not_P [OF ne] .
    then obtain vs i
      where vs: "map (forecast_then (\<lambda>c. min_value c (3 - 1)) ?s2) (get_legal_moves ?s2) =
          map (\<lambda>v. Inr (Fin v)) vs"
        and i: "i < length vs"
        and d: "minimax_decision ?s2 3 = Inr (Some (get_legal_moves ?s2 ! i))"
        and mx: "\<forall>j<length vs. vs ! j \<le> vs ! i"
      by blast
    from vs have "vs = [- 1, 1]"
      unfolding values_example by (auto simp: Cons_eq_map_conv)
    with i mx have "i = 1"
      by (cases i) auto
    with d show ?thesis
      by (simp add: get_legal_moves_after_two)
  qed
  have c: "minimax_decision GameState_init 1 = Inr (Some (0, 0))"
  proof -
    have ne: "get_legal_moves GameState_init \<noteq> []"
      by (simp add: get_legal_moves_init)
    have "\<exists>vs i. map (forecast_then (\<lambda>c. min_value c (1 - 1)) GameState_init)
                     (get_legal_moves GameState_init) = map (\<lambda>v. Inr (Fin v)) vs \<and>
                 i < length vs \<and>
                 minimax_decision GameState_init 1 =
                   Inr (Some (get_legal_moves GameState_init ! i)) \<and>
                 (\<forall>j<length vs. vs ! j \<le> vs ! i) \<and>
                 (\<forall>j<i. vs ! j < vs ! i)"
      using minimax_decision_spec [of GameState_init 1] unfolding if_not_P [OF ne] .
    then obtain vs i
      where vs: "map (forecast_then (\<lambda>c. min_value c (1 - 1)) GameState_init)
            (get_legal_moves GameState_init) = map (\<lambda>v. Inr (Fin v)) vs"
        and i: "i < length vs"
        and d: "minimax_decision GameState_init 1 = Inr (Some (get_legal_moves GameState_init ! i))"
        and f: "\<forall>j<i. vs ! j < vs ! i"
      by blast
    from vs have v: "vs = [0, 0, 0, 0, 0]"
      unfolding values_example_init by (auto simp: Cons_eq_map_conv)
    have "i = 0"
    proof (rule ccontr)
      assume "i \<noteq> 0"
      with f have "vs ! 0 < vs ! i"
        by simp
      moreover have "vs ! i \<in> set vs"
        using i by simp
      ultimately show False
        by (simp add: v)
    qed
    with d show ?thesis
      by (simp add: get_legal_moves_init)
  qed
  from a b c show ?thesis
    by (simp add: terminal_example get_legal_moves_after_two)
qed

theorem min_max_value_spec_witness:
  "max_value \<lparr>board = [[1, 1], [1, 1], [0, 1]], active_player = 0,
          player_locations = [Some (0, 1), Some (1, 1)]\<rparr> 3 = Inr (Fin (- 1)) \<and>
   min_value \<lparr>board = [[1, 1], [1, 1], [0, 1]], active_player = 0,
          player_locations = [Some (0, 1), Some (1, 1)]\<rparr> 3 = Inr (Fin 1) \<and>
   max_value GameState_init 0 = Inr (Fin 0) \<and>
   min_value GameState_init 0 = Inr (Fin 0) \<and>
   max_value \<lparr>board = [[1, 0], [1, 0], [0, 1]], active_player = 0,
          player_locations = [Some (0, 0), Some (1, 0)]\<rparr> 3 = Inr (Fin 1) \<and>
   (\<exists>h'. max_value_h
       [ListOfInts [1, 0], ListOfInts [1, 0], ListOfInts [0, 1], ListOfLists [0, 1, 2],
        ListOfLocs [Some (0, 0), Some (1, 0)], Instance 3 0 4] 5 3 = (Inr (Fin 1), h') \<and>
     take (length
         [ListOfInts [1, 0], ListOfInts [1, 0], ListOfInts [0, 1], ListOfLists [0, 1, 2],
          ListOfLocs [Some (0, 0), Some (1, 0)], Instance 3 0 4]) h' =
       [ListOfInts [1, 0], ListOfInts [1, 0], ListOfInts [0, 1], ListOfLists [0, 1, 2],
        ListOfLocs [Some (0, 0), Some (1, 0)], Instance 3 0 4])"
proof -
  let ?st = "\<lparr>board = [[1, 1], [1, 1], [0, 1]], active_player = 0,
          player_locations = [Some (0, 1), Some (1, 1)]\<rparr>"
  let ?s2 = "\<lparr>board = [[1, 0], [1, 0], [0, 1]], active_player = 0,
          player_locations = [Some (0, 0), Some (1, 0)]\<rparr>"
  let ?ht = "[ListOfInts [1, 1], ListOfInts [1, 1], ListOfInts [0, 1], ListOfLists [0, 1, 2],
        ListOfLocs [Some (0, 1), Some (1, 1)], Instance 3 0 4]"
  let ?h2 = "[ListOfInts [1, 0], ListOfInts [1, 0], ListOfInts [0, 1], ListOfLists [0, 1, 2],
        ListOfLocs [Some (0, 0), Some (1, 0)], Instance 3 0 4]"
  have wt: "wf_state ?st" and w2: "wf_state ?s2"
    by (simp_all add: wf_state_def in_board_def xlim_def ylim_def)
  note spec_t = min_max_value_spec [OF small_store [THEN conjunct1] small_store [THEN conjunct2] wt,
      of 3]
  note spec_0 = min_max_value_spec [OF init_store [THEN conjunct1] init_store [THEN conjunct2]
      wf_state_init, of 0]
  note spec_2 = min_max_value_spec [OF small_store [THEN conjunct1] small_store [THEN conjunct2] w2,
      of 3]
  have a: "max_value ?st 3 = Inr (Fin (- 1)) \<and> min_value ?st 3 = Inr (Fin 1)"
    using spec_t by (simp add: terminal_test_def terminal_example)
  have b: "max_value GameState_init 0 = Inr (Fin 0) \<and> min_value GameState_init 0 = Inr (Fin 0)"
    using spec_0 by (simp add: terminal_test_def get_legal_moves_init)
  have c: "max_value ?s2 3 = Inr (Fin 1)"
  proof -
    have nt: "\<not> terminal_test ?s2"
      by (simp add: terminal_test_def get_legal_moves_after_two)
    have nd: "\<not> (3::int) \<le> 0"
      by simp
    have "\<exists>vs. map (forecast_then (\<lambda>c. min_value c (3 - 1)) ?s2) (get_legal_moves ?s2) =
                 map (\<lambda>v. Inr (Fin v)) vs \<and>
               max_value ?s2 3 = Inr (Fin (Max (set vs)))"
      using spec_2 [THEN conjunct2, THEN conjunct2, THEN conjunct1]
      unfolding if_not_P [OF nt] if_not_P [OF nd] .
    then obtain vs
      where vs: "map (forecast_then (\<lambda>c. min_value c (3 - 1)) ?s2) (get_legal_moves ?s2) =
          map (\<lambda>v. Inr (Fin v)) vs"
        and m: "max_value ?s2 3 = Inr (Fin (Max (set vs)))"
      by blast
    from vs have "vs = [- 1, 1]"
      unfolding values_example by (auto simp: Cons_eq_map_conv)
    with m show ?thesis
      by simp
  qed
  from spec_2 [THEN conjunct1]
  have d: "\<exists>h'. max_value_h ?h2 5 3 = (Inr (Fin 1), h') \<and> take (length ?h2) h' = ?h2"
    unfolding c by blast
  from a b c d show ?thesis
    by blast
qed

theorem values_in_range_witness:
  "min_value GameState_init 2 \<in> {Inr (Fin (- 1)), Inr (Fin 0), Inr (Fin 1)} \<and>
   max_value GameState_init 2 \<in> {Inr (Fin (- 1)), Inr (Fin 0), Inr (Fin 1)} \<and>
   get_legal_moves GameState_init \<noteq> []"
  using values_in_range [of GameState_init 2] by (simp add: get_legal_moves_init)

section \<open>Termination of the search\<close>

lemma search_dom: "min_value_max_value_dom c"
proof -
  have "All min_value_max_value_dom"
    by (relation "measure (\<lambda>a. case a of Inl (s, d) \<Rightarrow> nat d | Inr (s, d) \<Rightarrow> nat d)") auto
  then show ?thesis
    by simp
qed

lemma search_call:
  assumes "min_value_max_value_rel y x"
  shows "call_depth y = call_depth x - 1 \<and> 0 < call_depth x \<and>
         \<not> terminal_test (call_state x) \<and> isl y = (\<not> isl x)"
  using assms by (cases rule: min_value_max_value_rel.cases) (simp_all add: call_depth_def call_state_def)

lemma search_calls:
  "(min_value_max_value_rel ^^ n) y x \<Longrightarrow>
   call_depth y = call_depth x - int n \<and> int n \<le> max 0 (call_depth x)"
proof (induction n arbitrary: x)
  case 0
  then show ?case by simp
next
  case (Suc n)
  then obtain z where yz: "(min_value_max_value_rel ^^ n) y z" and zx: "min_value_max_value_rel z x"
    by auto
  from search_call [OF zx] Suc.IH [OF yz] show ?case
    by auto
qed

lemma minimax_decision_returns: "\<exists>r. minimax_decision s d = Inr r"
proof -
  obtain vs where vs: "map (forecast_then (\<lambda>c. min_value c (d - 1)) s) (get_legal_moves s) =
      map (\<lambda>v. Inr (Fin v)) vs"
    using child_values [of "\<lambda>c. min_value c (d - 1)" s] values_range by blast
  show ?thesis
    by (simp add: minimax_decision_unfold [of s d] decision_fold [OF vs] split: prod.split)
qed

text \<open>
  Claim C9. The mutual recursion of \<^verbatim>\<open>min_value\<close> and \<^verbatim>\<open>max_value\<close> terminates on every
  state and every integer depth. \<open>min_value_max_value_rel y x\<close> is the relation "the call
  \<open>x\<close> makes the recursive call \<open>y\<close>" that the definition of the two functions
  generates from their bodies, and \<open>min_value_max_value_dom\<close> holds for the calls on which
  the recursion is well-founded (the accessible part of that relation); likewise
  \<open>min_value_h_max_value_h_dom\<close> for the two functions over the store. Every recursive
  call is made by a call on a non-terminal state with a positive depth, goes to the other
  function and passes the depth minus 1; so \<open>n\<close> nested calls lower the depth by
  exactly \<open>n\<close>, and there are never more than the depth of the outer call (none when
  it is not positive). A terminal state returns at once whatever the depth (+1 and -1),
  a non-terminal state at a non-positive depth returns 0 at once, and
  \<^verbatim>\<open>minimax_decision\<close>, a loop over the finitely many legal moves, returns a result.
\<close>

theorem search_terminates:
  "min_value_max_value_dom (Inl (s, d)) \<and> min_value_max_value_dom (Inr (s, d)) \<and>
   min_value_h_max_value_h_dom (Inl (h, r, d)) \<and>
   min_value_h_max_value_h_dom (Inr (h, r, d)) \<and>
   (\<forall>x y. min_value_max_value_rel y x \<longrightarrow>
      call_depth y = call_depth x - 1 \<and> 0 < call_depth x \<and>
      \<not> terminal_test (call_state x) \<and> isl y = (\<not> isl x)) \<and>
   (\<forall>x y n. (min_value_max_value_rel ^^ n) y x \<longrightarrow>
      call_depth y = call_depth x - int n \<and> int n \<le> max 0 (call_depth x)) \<and>
   (terminal_test s \<longrightarrow> min_value s d = Inr (Fin 1) \<and> max_value s d = Inr (Fin (- 1))) \<and>
   (\<not> terminal_test s \<and> d \<le> 0 \<longrightarrow> min_value s d = Inr (Fin 0) \<and> max_value s d = Inr (Fin 0)) \<and>
   (\<exists>r. minimax_decision s d = Inr r)"
proof (intro conjI allI impI)
  show "min_value_max_value_dom (Inl (s, d))" and "min_value_max_value_dom (Inr (s, d))"
    by (rule search_dom)+
  show "min_value_h_max_value_h_dom (Inl (h, r, d))"
    and "min_value_h_max_value_h_dom (Inr (h, r, d))"
    by (rule search_h_dom)+
  show "call_depth y = call_depth x - 1" "0 < call_depth x"
    "\<not> terminal_test (call_state x)" "isl y = (\<not> isl x)"
    if "min_value_max_value_rel y x" for x y
    using search_call [OF that] by simp_all
  show "call_depth y = call_depth x - int n" "int n \<le> max 0 (call_depth x)"
    if "(min_value_max_value_rel ^^ n) y x" for x y n
    using search_calls [OF that] by simp_all
  show "min_value s d = Inr (Fin 1)" "max_value s d = Inr (Fin (- 1))" if "terminal_test s"
    using that by (simp_all add: min_value_unfold [of s d] max_value_unfold [of s d])
  show "min_value s d = Inr (Fin 0)" "max_value s d = Inr (Fin 0)"
    if "\<not> terminal_test s \<and> d \<le> 0"
    using that by (simp_all add: min_value_unfold [of s d] max_value_unfold [of s d])
  show "\<exists>r. minimax_decision s d = Inr r"
    by (rule minimax_decision_returns)
qed

theorem search_terminates_witness:
  "terminal_test \<lparr>board = [[1, 1], [1, 1], [0, 1]], active_player = 0,
          player_locations = [Some (0, 1), Some (1, 1)]\<rparr> \<and>
   min_value \<lparr>board = [[1, 1], [1, 1], [0, 1]], active_player = 0,
          player_locations = [Some (0, 1), Some (1, 1)]\<rparr> 3 = Inr (Fin 1) \<and>
   max_value \<lparr>board = [[1, 1], [1, 1], [0, 1]], active_player = 0,
          player_locations = [Some (0, 1), Some (1, 1)]\<rparr> 3 = Inr (Fin (- 1)) \<and>
   \<not> terminal_test GameState_init \<and> (0::int) \<le> 0 \<and>
   min_value GameState_init 0 = Inr (Fin 0) \<and>
   max_value GameState_init 0 = Inr (Fin 0) \<and>
   min_value_max_value_rel
     (Inr (\<lparr>board = [[1, 0], [0, 0], [0, 1]], active_player = 1,
            player_locations = [Some (0, 0), None]\<rparr>, 3 - 1))
     (Inl (GameState_init, 3)) \<and>
   call_depth
     (Inr (\<lparr>board = [[1, 0], [0, 0], [0, 1]], active_player = 1,
            player_locations = [Some (0, 0), None]\<rparr>, 3 - 1)) =
     call_depth (Inl (GameState_init, 3)) - 1"
proof -
  let ?st = "\<lparr>board = [[1, 1], [1, 1], [0, 1]], active_player = 0,
          player_locations = [Some (0, 1), Some (1, 1)]\<rparr>"
  let ?s1 = "\<lparr>board = [[1, 0], [0, 0], [0, 1]], active_player = 1,
          player_locations = [Some (0, 0), None]\<rparr>"
  have t: "terminal_test ?st"
    by (simp add: terminal_test_def terminal_example)
  have nt: "\<not> terminal_test GameState_init"
    by (simp add: terminal_test_def get_legal_moves_init)
  have r: "min_value_max_value_rel (Inr (?s1, 3 - 1)) (Inl (GameState_init, 3))"
    using nt by (intro min_value_max_value_rel.intros(1) [of _ _ "(0, 0)"])
      (simp_all add: get_legal_moves_init forecast_move_init_00)
  from t nt r search_terminates [where s = ?st and d = 3]
    search_terminates [where s = GameState_init and d = 0]
  show ?thesis
    by simp
qed

end
